theory Spec2Isabelle
  imports Main "HOL-Library.AList"
begin

section \<open>JavaScript objects used as dictionaries\<close>

text \<open>
  \<^verbatim>\<open>sshp.js\<close> keeps two dictionaries in plain objects created by \<^verbatim>\<open>{}\<close>:
  \<^verbatim>\<open>output\<close> (host to accumulated text) and, inside the drain handler, \<^verbatim>\<open>diff\<close>
  (text to list of hosts). An object is modelled by the list of its own properties in
  creation order. Three facts of the language are written out, because the program
  relies on \<^verbatim>\<open>Object.keys\<close> and on reads of keys that may not be own properties:
  \<^item> \<^verbatim>\<open>Object.keys\<close> lists the keys that are array indices (canonical decimal strings
    below \<open>2^32 - 1\<close>) first, in ascending numeric order, and the other keys after
    them in creation order;
  \<^item> a read of a key that is not an own property falls through to
    \<^verbatim>\<open>Object.prototype\<close>, whose properties are all truthy and none of which is an array;
  \<^item> an assignment to \<^verbatim>\<open>__proto__\<close> of a value that is not an object creates no
    property.
\<close>

type_synonym 'v obj = "(string \<times> 'v) list"

definition proto_names :: "string list" where
  "proto_names =
     [''constructor'', ''toString'', ''toLocaleString'', ''valueOf'', ''hasOwnProperty'',
      ''isPrototypeOf'', ''propertyIsEnumerable'', ''__defineGetter__'',
      ''__defineSetter__'', ''__lookupGetter__'', ''__lookupSetter__'', ''__proto__'']"

definition is_digit :: "char \<Rightarrow> bool" where
  "is_digit c = (c \<in> set ''0123456789'')"

definition digits_value :: "string \<Rightarrow> nat" where
  "digits_value s = foldl (\<lambda>a c. 10 * a + (of_char c - 48)) 0 s"

definition is_array_index :: "string \<Rightarrow> bool" where
  "is_array_index s =
     (s \<noteq> [] \<and> list_all is_digit s \<and> (hd s \<noteq> CHR ''0'' \<or> length s = 1)
      \<and> digits_value s < 4294967295)"

definition own_keys :: "string list \<Rightarrow> string list" where
  "own_keys ks =
     sort_key digits_value (filter is_array_index ks) @ filter (\<lambda>k. \<not> is_array_index k) ks"

definition obj_keys :: "'v obj \<Rightarrow> string list" where
  "obj_keys ob = own_keys (map fst ob)"

definition obj_set :: "'v obj \<Rightarrow> string \<Rightarrow> 'v \<Rightarrow> 'v obj" where
  "obj_set ob k v = (if k = ''__proto__'' then ob else AList.update k v ob)"

section \<open>Options\<close>

text \<open>
  The option variables of lines 114-126. \<^verbatim>\<open>maxjobs\<close> and \<^verbatim>\<open>port\<close> hold the numbers
  that \<^verbatim>\<open>+option.optarg\<close> yields; only integer values are modelled. \<^verbatim>\<open>None\<close> is
  \<^verbatim>\<open>undefined\<close>. \<^verbatim>\<open>identity\<close> is assigned by \<^verbatim>\<open>-i\<close> and read nowhere;
  \<^verbatim>\<open>hostsfile\<close> is the variable \<^verbatim>\<open>file\<close>.
\<close>

record config =
  debug :: bool
  dryrun :: bool
  errorcodes :: bool
  hostsfile :: "string option"
  group :: bool
  identity :: "string option"
  join :: bool
  login :: "string option"
  maxjobs :: int
  nostrict :: bool
  port :: "int option"
  quiet :: bool
  silent :: bool

definition defaults :: config where
  "defaults = \<lparr> debug = False, dryrun = False, errorcodes = False, hostsfile = None,
     group = False, identity = None, join = False, login = None, maxjobs = 30,
     nostrict = False, port = None, quiet = False, silent = False \<rparr>"

text \<open>One value of \<^verbatim>\<open>parser.getopt()\<close>: the option letter with its argument.\<close>

datatype opt =
    Opt_d | Opt_e | Opt_f string | Opt_g | Opt_h | Opt_i string | Opt_j | Opt_l string
  | Opt_m int | Opt_n | Opt_N | Opt_p int | Opt_q | Opt_s | Opt_u | Opt_v | Opt_other

text \<open>How the process ends: \<^verbatim>\<open>process.exit(n)\<close>; by itself, with status 0, when the
  event loop has nothing left to wait for; by an exception nobody catches; or by the
  exit that the update check of \<^verbatim>\<open>-u\<close> makes with a status of its own.\<close>

datatype halt = Exited nat | Loop_empty | Uncaught | Update_check

datatype stream = Stdout | Stderr

text \<open>An element of an argument vector: \<^verbatim>\<open>port\<close> is pushed as a number.\<close>

datatype arg = Str string | Num int

text \<open>
  What the program does to the outside, one constructor for each output call of the
  source with the values it is given. Colours, the \<^verbatim>\<open>util.format\<close> rendering, the
  process id and the clock readings are left out.
\<close>

datatype effect =
    Usage stream
  | Version_line
  | Console_error string
  | Vlog_starting
  | Vlog_pid
  | Vlog_hosts nat "string list"
  | Vlog_command "string list"
  | Vlog_maxjobs int
  | Vlog_cmd string "arg list"
  | Vlog_finished
  | Spawn arg "arg list"
  | Header string
  | Chunk stream string
  | Line stream string string
  | Exited_line string "nat option"
  | Progress nat nat bool
  | Summary_head nat
  | Group_hosts nat nat string
  | Group_text string

text \<open>The \<^verbatim>\<open>switch\<close> of lines 128-151; \<^verbatim>\<open>Inl\<close> is an exit inside the loop.\<close>

fun apply_option :: "config \<Rightarrow> opt \<Rightarrow> (effect list \<times> halt) + config" where
  "apply_option c Opt_d = Inr (c\<lparr>debug := True\<rparr>)"
| "apply_option c Opt_e = Inr (c\<lparr>errorcodes := True\<rparr>)"
| "apply_option c (Opt_f a) = Inr (c\<lparr>hostsfile := Some a\<rparr>)"
| "apply_option c Opt_g = Inr (c\<lparr>group := True\<rparr>)"
| "apply_option c Opt_h = Inl ([Usage Stdout], Exited 0)"
| "apply_option c (Opt_i a) = Inr (c\<lparr>identity := Some a\<rparr>)"
| "apply_option c Opt_j = Inr (c\<lparr>join := True\<rparr>)"
| "apply_option c (Opt_l a) = Inr (c\<lparr>login := Some a\<rparr>)"
| "apply_option c (Opt_m n) = Inr (c\<lparr>maxjobs := n\<rparr>)"
| "apply_option c Opt_n = Inr (c\<lparr>dryrun := True, debug := True\<rparr>)"
| "apply_option c Opt_N = Inr (c\<lparr>nostrict := True\<rparr>)"
| "apply_option c (Opt_p n) = Inr (c\<lparr>port := Some n\<rparr>)"
| "apply_option c Opt_q = Inr (c\<lparr>quiet := True\<rparr>)"
| "apply_option c Opt_s = Inr (c\<lparr>silent := True\<rparr>)"
| "apply_option c Opt_u = Inl ([], Update_check)"
| "apply_option c Opt_v = Inl ([Version_line], Exited 0)"
| "apply_option c Opt_other = Inl ([Usage Stderr], Exited 1)"

fun getopts :: "config \<Rightarrow> opt list \<Rightarrow> (effect list \<times> halt) + config" where
  "getopts c [] = Inr c"
| "getopts c (x # xs) =
     (case apply_option c x of Inl e \<Rightarrow> Inl e | Inr c' \<Rightarrow> getopts c' xs)"

text \<open>Lines 153-163: the checks made on the options and the command.\<close>

definition validate :: "config \<Rightarrow> string list \<Rightarrow> string + unit" where
  "validate c command =
     (if command = [] then Inl ''no command specified''
      else if group c \<and> join c then Inl ''option `-g` and `-j` are mutually exclusive''
      else if join c \<and> silent c then Inl ''option `-j` and `-s` are mutually exclusive''
      else Inr ())"

text \<open>Line 167: the host list is the non-empty lines of the file.\<close>

fun split_nl :: "string \<Rightarrow> string \<Rightarrow> string list" where
  "split_nl acc [] = [rev acc]"
| "split_nl acc (c # cs) =
     (if c = CHR 0x0A then rev acc # split_nl [] cs else split_nl (c # acc) cs)"

definition read_hosts :: "string \<Rightarrow> string list" where
  "read_hosts content = filter (\<lambda>a. a \<noteq> []) (split_nl [] content)"

text \<open>Lines 177-181: the part of the argument vector that all jobs share.\<close>

definition sshcommand :: "config \<Rightarrow> arg list" where
  "sshcommand c =
     [Str ''ssh'']
     @ (if quiet c then [Str ''-q''] else [])
     @ (case port c of None \<Rightarrow> [] | Some p \<Rightarrow> if p = 0 then [] else [Str ''-p'', Num p])
     @ (case login c of None \<Rightarrow> [] | Some l \<Rightarrow> if l = [] then [] else [Str ''-l'', Str l])
     @ (if nostrict c then [Str ''-o'', Str ''StrictHostKeyChecking=no''] else [])"

section \<open>The state of a run\<close>

text \<open>
  The variables that the handlers share (\<^verbatim>\<open>output\<close>, here \<open>outputs\<close>,
  \<^verbatim>\<open>exitcode\<close>, \<^verbatim>\<open>lasthost\<close> and \<^verbatim>\<open>i\<close>, here \<open>completed\<close>), the two fields of the queue (\<open>tasks\<close>: the hosts
  pushed and not yet started; \<open>running\<close>: the jobs handed to \<^verbatim>\<open>processhost\<close> whose
  callback has not been called, so that \<^verbatim>\<open>workers\<close> is its length), the effects so far,
  and how the process ended if it has. A job is the position of its host in the list,
  since a host may be listed twice. \<open>drains\<close> counts the calls of \<^verbatim>\<open>q.drain\<close>.
\<close>

record state =
  tasks :: "(nat \<times> string) list"
  running :: "(nat \<times> string) list"
  outputs :: "string obj"
  exitcode :: nat
  lasthost :: "string option"
  completed :: nat
  trace :: "effect list"
  halted :: "halt option"
  drains :: nat

definition init :: state where
  "init = \<lparr> tasks = [], running = [], outputs = [], exitcode = 0, lasthost = None,
     completed = 0, trace = [], halted = None, drains = 0 \<rparr>"

definition emit :: "effect \<Rightarrow> state \<Rightarrow> state" where
  "emit e s = s\<lparr>trace := trace s @ [e]\<rparr>"

text \<open>Lines 68-72.\<close>

definition vlog :: "config \<Rightarrow> effect \<Rightarrow> state \<Rightarrow> state" where
  "vlog c e s = (if debug c then emit e s else s)"

text \<open>Lines 84-91, with \<open>n\<close> for \<^verbatim>\<open>hosts.length\<close>.\<close>

definition progress :: "bool \<Rightarrow> nat \<Rightarrow> state \<Rightarrow> state" where
  "progress cr n s = emit (Progress (completed s) n cr) s"

section \<open>The data handlers\<close>

text \<open>Modelled from the spec: \<^verbatim>\<open>ll.chomp\<close> of the package \<^verbatim>\<open>lazylines\<close>, which is not
  part of the sources; section 4.2 has the newline of a line stripped.\<close>

definition chomp :: "string \<Rightarrow> string" where
  "chomp d = (if d \<noteq> [] \<and> last d = CHR 0x0A then butlast d else d)"

text \<open>
  \<^verbatim>\<open>output[host] = output[host] || ''; output[host] += d\<close>. Every host has its own
  property from line 191 on, except the host \<^verbatim>\<open>__proto__\<close>, for which both assignments
  create nothing; what is read in that case does not matter.
\<close>

definition output_append :: "string obj \<Rightarrow> string \<Rightarrow> string \<Rightarrow> string obj" where
  "output_append ob host d =
     obj_set ob host ((case map_of ob host of Some t \<Rightarrow> t | None \<Rightarrow> []) @ d)"

text \<open>
  Lines 251-268 and 277-294. \<open>d\<close> is the argument of the handler after
  \<^verbatim>\<open>d.toString()\<close>: a chunk in group and join mode, a line of the line reader
  otherwise. The header is written by \<^verbatim>\<open>console.log\<close> in both handlers.
\<close>

definition out :: "config \<Rightarrow> string \<Rightarrow> string \<Rightarrow> state \<Rightarrow> state" where
  "out c host d s =
     (if silent c then s
      else if group c then
        emit (Chunk Stdout d)
          (if lasthost s \<noteq> Some host then (emit (Header host) s)\<lparr>lasthost := Some host\<rparr>
           else s)
      else if join c then s\<lparr>outputs := output_append (outputs s) host d\<rparr>
      else emit (Line Stdout host (chomp d)) s)"

definition err :: "config \<Rightarrow> string \<Rightarrow> string \<Rightarrow> state \<Rightarrow> state" where
  "err c host d s =
     (if silent c then s
      else if group c then
        emit (Chunk Stderr d)
          (if lasthost s \<noteq> Some host then (emit (Header host) s)\<lparr>lasthost := Some host\<rparr>
           else s)
      else if join c then s\<lparr>outputs := output_append (outputs s) host d\<rparr>
      else emit (Line Stderr host (chomp d)) s)"

text \<open>Lines 244-250 and 270-276: \<^verbatim>\<open>out\<close> listens to the standard output of the child,
  \<^verbatim>\<open>err\<close> to its standard error.\<close>

definition on_data :: "config \<Rightarrow> stream \<Rightarrow> string \<Rightarrow> string \<Rightarrow> state \<Rightarrow> state" where
  "on_data c st host d s = (case st of Stdout \<Rightarrow> out c host d s | Stderr \<Rightarrow> err c host d s)"

section \<open>The drain handler\<close>

text \<open>
  Lines 202-206 for one host: \<^verbatim>\<open>diff[text] = diff[text] || []; diff[text].push(host)\<close>.
  When \<open>text\<close> is no own property of \<open>diff\<close> but names a property of
  \<^verbatim>\<open>Object.prototype\<close>, the value read is truthy and has no \<^verbatim>\<open>push\<close>: the call throws
  a \<^verbatim>\<open>TypeError\<close>, here \<open>None\<close>.
\<close>

definition diff_push :: "(string list) obj \<Rightarrow> string \<Rightarrow> string \<Rightarrow> (string list) obj option" where
  "diff_push diff text host =
     (case map_of diff text of
        Some hs \<Rightarrow> Some (AList.update text (hs @ [host]) diff)
      | None \<Rightarrow> if text \<in> set proto_names then None else Some (diff @ [(text, [host])]))"

text \<open>The value of an own property; the keys it is asked for come from \<^verbatim>\<open>Object.keys\<close>.\<close>

definition own_value :: "'v \<Rightarrow> 'v obj \<Rightarrow> string \<Rightarrow> 'v" where
  "own_value dflt ob k = (case map_of ob k of Some v \<Rightarrow> v | None \<Rightarrow> dflt)"

fun build_diff :: "string obj \<Rightarrow> string list \<Rightarrow> (string list) obj \<Rightarrow> (string list) obj option" where
  "build_diff ob [] diff = Some diff"
| "build_diff ob (host # rest) diff =
     (case diff_push diff (own_value [] ob host) host of
        None \<Rightarrow> None
      | Some diff' \<Rightarrow> build_diff ob rest diff')"

fun join_sp :: "string list \<Rightarrow> string" where
  "join_sp [] = []"
| "join_sp [x] = x"
| "join_sp (x # y # ys) = x @ '' '' @ join_sp (y # ys)"

text \<open>Lines 208-221: what the summary prints for the dictionary \<open>diff\<close>.\<close>

definition group_lines :: "(string list) obj \<Rightarrow> nat \<Rightarrow> string \<Rightarrow> effect list" where
  "group_lines diff n text =
     (let hosts = own_value [] diff text
      in [Group_hosts (length hosts) n (join_sp hosts),
          Group_text (if text = [] then ''no output'' @ [CHR 0x0A] else text)])"

definition summary :: "string obj \<Rightarrow> effect list option" where
  "summary ob =
     (let outputkeys = obj_keys ob
      in case build_diff ob outputkeys [] of
           None \<Rightarrow> None
         | Some diff \<Rightarrow>
             (let keys = obj_keys diff
              in Some (Summary_head (length keys)
                       # concat (map (group_lines diff (length outputkeys)) keys))))"

text \<open>Lines 194-226.\<close>

definition finish :: "config \<Rightarrow> state \<Rightarrow> state" where
  "finish c s = (vlog c Vlog_finished s)\<lparr>halted := Some (Exited (exitcode s))\<rparr>"

definition drain :: "config \<Rightarrow> state \<Rightarrow> state" where
  "drain c s0 =
     (let s = s0\<lparr>drains := drains s0 + 1\<rparr>
      in if join c \<and> \<not> group c then
           (case summary (outputs s) of
              None \<Rightarrow> s\<lparr>halted := Some Uncaught\<rparr>
            | Some effs \<Rightarrow> finish c (s\<lparr>trace := trace s @ effs\<rparr>))
         else finish c s)"

section \<open>The queue and the jobs\<close>

text \<open>
  Modelled from the spec: \<^verbatim>\<open>async.queue\<close> of the package \<^verbatim>\<open>async\<close>, which is not part
  of the sources. Section 4.1 gives its contract and algorithm: a first-in first-out
  list of the hosts not yet started and a count of the running jobs; while the count is
  below the cap and the list is not empty, a host is taken from the list and its job
  started; at a job's terminal event the count goes down, drain fires if that was the
  last job (\<^emph>\<open>after the last job's terminal event, with no pending or running jobs
  remaining\<close>), and the admission rule is run again. \<open>task_done\<close> is the callback
  \<^verbatim>\<open>cb\<close> that the queue hands to \<^verbatim>\<open>processhost\<close>, up to the admission that follows it.
  The queue's own count of running jobs is the length of \<open>running\<close>; the variable
  \<^verbatim>\<open>i\<close> of the source is not the queue's.

  Two things the sources do not decide are parameters of the model, and every theorem
  holds for each of their values: whether the library refuses a cap of zero, or a
  negative one, when the queue is made (line 184), in which case the exception ends
  the process there; and whether it calls \<^verbatim>\<open>q.drain\<close> for a queue to which nothing was
  pushed. \<open>queue_as_spec\<close> has them as section 4.1 words its edge cases (a cap of
  zero or less is an error reported before any job starts; an empty host list drains
  immediately); \<open>queue_lenient\<close> is a library that accepts every cap and calls
  \<^verbatim>\<open>q.drain\<close> at a job's terminal event only.
\<close>

record queue_lib =
  rejects_zero :: bool
  rejects_negative :: bool
  drains_unpushed :: bool

definition queue_as_spec :: queue_lib where
  "queue_as_spec = \<lparr> rejects_zero = True, rejects_negative = True, drains_unpushed = True \<rparr>"

definition queue_lenient :: queue_lib where
  "queue_lenient = \<lparr> rejects_zero = False, rejects_negative = False, drains_unpushed = False \<rparr>"

definition rejected :: "queue_lib \<Rightarrow> config \<Rightarrow> bool" where
  "rejected q c \<longleftrightarrow>
     (maxjobs c = 0 \<and> rejects_zero q) \<or> (maxjobs c < 0 \<and> rejects_negative q)"

definition task_done :: "config \<Rightarrow> nat \<Rightarrow> state \<Rightarrow> state" where
  "task_done c j s =
     (let s1 = s\<lparr>running := filter (\<lambda>t. fst t \<noteq> j) (running s)\<rparr>
      in if tasks s1 = [] \<and> running s1 = [] then drain c s1 else s1)"

text \<open>Lines 236-242: the job of one host, up to the registration of its handlers.\<close>

definition processhost :: "config \<Rightarrow> string list \<Rightarrow> nat \<times> string \<Rightarrow> state \<Rightarrow> state" where
  "processhost c command t s =
     (let cmd = sshcommand c @ [Str (snd t)] @ map Str command;
          s1 = vlog c (Vlog_cmd (snd t) cmd) s
      in if dryrun c then task_done c (fst t) s1
         else emit (Spawn (hd cmd) (tl cmd)) s1)"

lemma tasks_emit [simp]: "tasks (emit e s) = tasks s"
  by (simp add: emit_def)

lemma tasks_vlog [simp]: "tasks (vlog c e s) = tasks s"
  by (simp add: vlog_def)

lemma tasks_drain [simp]: "tasks (drain c s) = tasks s"
  by (simp add: drain_def finish_def Let_def split: option.splits)

lemma tasks_task_done [simp]: "tasks (task_done c j s) = tasks s"
  by (simp add: task_done_def Let_def)

lemma tasks_processhost [simp]: "tasks (processhost c command t s) = tasks s"
  by (simp add: processhost_def Let_def)

text \<open>Modelled from the spec: the admission rule of \<^verbatim>\<open>async.queue\<close> (section 4.1), which
  is not part of the sources: while the process has not ended, the number of running
  jobs is below the cap and a host is pending, the first pending host is taken and
  \<^verbatim>\<open>processhost\<close> is called for it.\<close>

function admit :: "config \<Rightarrow> string list \<Rightarrow> state \<Rightarrow> state" where
  "admit c command s =
     (case tasks s of
        [] \<Rightarrow> s
      | t # rest \<Rightarrow>
          if halted s = None \<and> int (length (running s)) < maxjobs c then
            admit c command
              (processhost c command t (s\<lparr>tasks := rest, running := running s @ [t]\<rparr>))
          else s)"
  by pat_completeness auto
termination
  by (relation "measure (\<lambda>(c, command, s). length (tasks s))") auto

declare admit.simps [simp del]

section \<open>The events of a run\<close>

text \<open>
  What the event loop delivers for a running job: a chunk (or, in line mode, a line) of
  one of its two streams, its \<^verbatim>\<open>close\<close> event with the exit status (\<open>None\<close> is
  \<^verbatim>\<open>null\<close>, the status of a child ended by a signal), or the \<^verbatim>\<open>error\<close> event of a
  child that could not be spawned.
\<close>

datatype event = Data nat stream string | Close nat "nat option" | Error nat

text \<open>The number that \<^verbatim>\<open>exitcode += code\<close> adds: \<^verbatim>\<open>null\<close> converts to 0.\<close>

definition to_number :: "nat option \<Rightarrow> nat" where
  "to_number code = (case code of None \<Rightarrow> 0 | Some k \<Rightarrow> k)"

text \<open>Lines 298-309, with \<open>n\<close> for \<^verbatim>\<open>hosts.length\<close>: the \<^verbatim>\<open>close\<close> handler before it
  calls the callback.\<close>

definition closed :: "config \<Rightarrow> nat \<Rightarrow> string \<Rightarrow> nat option \<Rightarrow> state \<Rightarrow> state" where
  "closed c n host code s =
     (let s1 = s\<lparr>completed := completed s + 1, exitcode := exitcode s + to_number code\<rparr>
      in if errorcodes c then emit (Exited_line host code) s1
         else if join c then progress True n s1
         else s1)"

text \<open>
  The end of a turn of the event loop in which the set of children may have shrunk:
  with no child left and the process still there, nothing is left to wait for (the
  hosts file is read synchronously, and the signal listener of line 232 keeps no
  process alive), so the process ends by itself, with status 0. Pending hosts that the
  queue does not start do not keep it alive.
\<close>

definition settle :: "state \<Rightarrow> state" where
  "settle s = (if halted s = None \<and> running s = [] then s\<lparr>halted := Some Loop_empty\<rparr> else s)"

text \<open>Lines 297-311: the \<^verbatim>\<open>close\<close> handler of job \<open>j\<close>, whose last statement is the
  callback of the queue; then the turn ends.\<close>

definition on_close ::
  "config \<Rightarrow> string list \<Rightarrow> nat \<Rightarrow> nat \<Rightarrow> string \<Rightarrow> nat option \<Rightarrow> state \<Rightarrow> state" where
  "on_close c command n j host code s =
     settle (admit c command (task_done c j (closed c n host code s)))"

text \<open>
  One event. Nothing happens after the process has ended, and nothing for a job that is
  not running. The source registers listeners for \<^verbatim>\<open>data\<close> (or \<^verbatim>\<open>line\<close>) and
  \<^verbatim>\<open>close\<close> only (lines 246-297): an \<^verbatim>\<open>error\<close> event finds no listener, so the emitter
  throws it and nothing catches it.
\<close>

definition step :: "config \<Rightarrow> string list \<Rightarrow> nat \<Rightarrow> state \<Rightarrow> event \<Rightarrow> state" where
  "step c command n s ev =
     (if halted s \<noteq> None then s
      else case ev of
        Data j st d \<Rightarrow>
          (case map_of (running s) j of
             None \<Rightarrow> s
           | Some host \<Rightarrow> on_data c st host d s)
      | Close j code \<Rightarrow>
          (case map_of (running s) j of
             None \<Rightarrow> s
           | Some host \<Rightarrow> on_close c command n j host code s)
      | Error j \<Rightarrow>
          (case map_of (running s) j of
             None \<Rightarrow> s
           | Some host \<Rightarrow> s\<lparr>halted := Some Uncaught\<rparr>))"

text \<open>Lines 169-174: the debug lines before the queue is made.\<close>

definition announced :: "config \<Rightarrow> string list \<Rightarrow> string list \<Rightarrow> state" where
  "announced c command hosts =
     vlog c (Vlog_maxjobs (maxjobs c))
       (vlog c (Vlog_command command)
         (vlog c (Vlog_hosts (length hosts) hosts)
           (vlog c Vlog_pid (vlog c Vlog_starting init))))"

text \<open>
  Lines 169-314, the rest of the script for a cap that the library takes: the debug
  lines, one empty \<^verbatim>\<open>output\<close> entry and one push for each host, and the progress line
  of join mode.
\<close>

definition script :: "config \<Rightarrow> string list \<Rightarrow> string list \<Rightarrow> state" where
  "script c command hosts =
     (let s2 = (announced c command hosts)
                 \<lparr>outputs := foldl (\<lambda>ob host. obj_set ob host []) [] hosts,
                  tasks := zip [0..<length hosts] hosts\<rparr>
      in if join c then progress True (length hosts) s2 else s2)"

text \<open>
  The first turn of the event loop after the script: the first admission, or, where
  nothing was pushed and the library drains such a queue, the drain handler; then the
  turn ends.
\<close>

definition start :: "queue_lib \<Rightarrow> config \<Rightarrow> string list \<Rightarrow> string list \<Rightarrow> state" where
  "start q c command hosts =
     settle (if hosts = [] \<and> drains_unpushed q then drain c (script c command hosts)
             else admit c command (script c command hosts))"

text \<open>The program from line 153 on, for the library \<open>q\<close>, the options \<open>c\<close>, the command,
  the content of the hosts file and the events that the event loop delivers, in their
  order.\<close>

definition sshp ::
  "queue_lib \<Rightarrow> config \<Rightarrow> string list \<Rightarrow> string \<Rightarrow> event list \<Rightarrow> state" where
  "sshp q c command content evs =
     (case validate c command of
        Inl msg \<Rightarrow> init\<lparr>trace := [Console_error msg], halted := Some (Exited 1)\<rparr>
      | Inr _ \<Rightarrow>
          if rejected q c
          then (announced c command (read_hosts content))\<lparr>halted := Some Uncaught\<rparr>
          else foldl (step c command (length (read_hosts content)))
                 (start q c command (read_hosts content)) evs)"

text \<open>The whole program, from the parsed options.\<close>

definition main ::
  "queue_lib \<Rightarrow> opt list \<Rightarrow> string list \<Rightarrow> string \<Rightarrow> event list \<Rightarrow> state" where
  "main q opts command content evs =
     (case getopts defaults opts of
        Inl (effs, h) \<Rightarrow> init\<lparr>trace := effs, halted := Some h\<rparr>
      | Inr c \<Rightarrow> sshp q c command content evs)"

text \<open>The exit status of the process where the sources decide it: the argument of
  \<^verbatim>\<open>process.exit\<close>, or 0 when the process ends by itself.\<close>

definition exit_status :: "state \<Rightarrow> nat option" where
  "exit_status s =
     (case halted s of
        Some (Exited k) \<Rightarrow> Some k
      | Some Loop_empty \<Rightarrow> Some 0
      | _ \<Rightarrow> None)"

text \<open>The processes started so far.\<close>

fun is_spawn :: "effect \<Rightarrow> bool" where
  "is_spawn (Spawn a as) = True"
| "is_spawn e = False"

definition spawns :: "state \<Rightarrow> effect list" where
  "spawns s = filter is_spawn (trace s)"

text \<open>The debug lines that report an argument vector (line 239).\<close>

fun is_vlog_cmd :: "effect \<Rightarrow> bool" where
  "is_vlog_cmd (Vlog_cmd host cmd) = True"
| "is_vlog_cmd e = False"

section \<open>The summary as the specification words it\<close>

text \<open>
  The hosts are partitioned by their accumulated text; the groups come in the order in
  which each distinct text is first met when the entries of \<^verbatim>\<open>output\<close> are taken in
  their order of creation (the host list's order of first appearance, line 191); each
  group is printed as its host list and then its text once, the empty text as
  \<^verbatim>\<open>no output\<close>.
\<close>

definition first_seen :: "'a list \<Rightarrow> 'a list" where
  "first_seen xs = rev (remdups (rev xs))"

definition hosts_with :: "string \<Rightarrow> string obj \<Rightarrow> string list" where
  "hosts_with text ob = map fst (filter (\<lambda>p. snd p = text) ob)"

definition spec_groups :: "string obj \<Rightarrow> (string list) obj" where
  "spec_groups ob = map (\<lambda>text. (text, hosts_with text ob)) (first_seen (map snd ob))"

definition spec_summary :: "string obj \<Rightarrow> effect list" where
  "spec_summary ob =
     Summary_head (length (spec_groups ob))
     # concat (map (\<lambda>(text, hosts).
                      [Group_hosts (length hosts) (length ob) (join_sp hosts),
                       Group_text (if text = [] then ''no output'' @ [CHR 0x0A] else text)])
                (spec_groups ob))"

text \<open>The statuses of the \<^verbatim>\<open>close\<close> events that reach a running job, in their order.\<close>

fun handled :: "config \<Rightarrow> string list \<Rightarrow> nat \<Rightarrow> state \<Rightarrow> event list \<Rightarrow> nat option list" where
  "handled c command n s [] = []"
| "handled c command n s (ev # evs) =
     (case ev of
        Close j code \<Rightarrow> if halted s = None \<and> map_of (running s) j \<noteq> None then [code] else []
      | _ \<Rightarrow> [])
     @ handled c command n (step c command n s ev) evs"

section \<open>What holds between two events\<close>

text \<open>
  The invariant of the queue and the counters, for a run over \<open>n\<close> hosts: no job is
  queued or running twice; jobs run only outside a dry run and never more than the cap;
  outside a dry run every host is pending, running or counted as completed, and, if
  there is a host, the drain handler has run once if nothing is pending or running and
  not at all otherwise; in a dry run nothing is counted as completed; an exit by
  \<^verbatim>\<open>process.exit\<close> in the drain handler carries \<^verbatim>\<open>exitcode\<close>.
\<close>

definition queue_inv :: "config \<Rightarrow> nat \<Rightarrow> state \<Rightarrow> bool" where
  "queue_inv c n s \<longleftrightarrow>
     distinct (map fst (running s @ tasks s))
     \<and> (running s \<noteq> [] \<longrightarrow> \<not> dryrun c \<and> int (length (running s)) \<le> maxjobs c)
     \<and> (\<not> dryrun c \<longrightarrow>
          length (running s) + length (tasks s) + completed s = n
          \<and> (0 < n \<longrightarrow> drains s = (if running s = [] \<and> tasks s = [] then 1 else 0)))
     \<and> (dryrun c \<longrightarrow> completed s = 0)
     \<and> (\<forall>k. halted s = Some (Exited k) \<longrightarrow> k = exitcode s)"

text \<open>After an admission, and so between any two events, no slot is left free while a
  host is pending.\<close>

definition saturated :: "config \<Rightarrow> state \<Rightarrow> bool" where
  "saturated c s \<longleftrightarrow>
     tasks s = [] \<or> halted s \<noteq> None \<or> maxjobs c \<le> int (length (running s))"

text \<open>The own properties of \<^verbatim>\<open>output\<close> are the hosts in the order of their first
  appearance in the list, the host \<^verbatim>\<open>__proto__\<close> left out, and every job is for a host
  of the list.\<close>

definition hosts_known :: "string list \<Rightarrow> state \<Rightarrow> bool" where
  "hosts_known hosts s \<longleftrightarrow>
     map fst (outputs s) = first_seen (filter (\<lambda>h. h \<noteq> ''__proto__'') hosts)
     \<and> snd ` set (running s @ tasks s) \<subseteq> set hosts"

section \<open>The admission rule\<close>

lemma admit_rule:
  assumes "P s"
    and "\<And>s t rest. P s \<Longrightarrow> tasks s = t # rest \<Longrightarrow> halted s = None \<Longrightarrow>
           int (length (running s)) < maxjobs c \<Longrightarrow>
           P (processhost c command t (s\<lparr>tasks := rest, running := running s @ [t]\<rparr>))"
  shows "P (admit c command s)"
  using assms
proof (induction c command s rule: admit.induct)
  case (1 c command s)
  note step = 1(3)
  show ?case
  proof (cases "tasks s")
    case Nil
    with 1(2) show ?thesis by (simp add: admit.simps)
  next
    case (Cons t rest)
    show ?thesis
    proof (cases "halted s = None \<and> int (length (running s)) < maxjobs c")
      case True
      have c1: "halted s = None" and c2: "int (length (running s)) < maxjobs c"
        using True by simp_all
      have "P (processhost c command t (s\<lparr>tasks := rest, running := running s @ [t]\<rparr>))"
        by (rule step [OF 1(2) Cons c1 c2])
      then have "P (admit c command (processhost c command t (s\<lparr>tasks := rest, running := running s @ [t]\<rparr>)))"
        by (rule 1(1) [OF Cons True _ step])
      then show ?thesis using Cons True by (subst admit.simps) simp
    next
      case False
      with 1(2) Cons show ?thesis by (subst admit.simps) auto
    qed
  qed
qed

lemma admit_post:
  "tasks (admit c command s) = [] \<or> halted (admit c command s) \<noteq> None
   \<or> maxjobs c \<le> int (length (running (admit c command s)))"
proof (induction c command s rule: admit.induct)
  case (1 c command s)
  show ?case
  proof (cases "tasks s")
    case Nil
    then show ?thesis by (subst (1 2 3) admit.simps) simp
  next
    case (Cons t rest)
    show ?thesis
    proof (cases "halted s = None \<and> int (length (running s)) < maxjobs c")
      case True
      then show ?thesis using 1 Cons by (subst (1 2 3) admit.simps) simp
    next
      case False
      then show ?thesis using Cons by (subst (1 2 3) admit.simps) auto
    qed
  qed
qed

lemma admit_halted [simp]: "halted s \<noteq> None \<Longrightarrow> admit c command s = s"
  by (subst admit.simps) (auto split: list.splits)

lemma admit_no_tasks [simp]: "tasks s = [] \<Longrightarrow> admit c command s = s"
  by (subst admit.simps) simp

lemma admit_no_room: "maxjobs c \<le> int (length (running s)) \<Longrightarrow> admit c command s = s"
  by (subst admit.simps) (auto split: list.splits)

section \<open>Runs in which nothing happens\<close>

lemma drain_halts [simp]: "halted (drain c s) \<noteq> None"
  by (simp add: drain_def finish_def vlog_def emit_def Let_def split: option.splits)

lemma step_idle: "running s = [] \<Longrightarrow> step c command n s ev = s"
  by (simp add: step_def split: event.splits)

lemma run_idle: "running s = [] \<Longrightarrow> foldl (step c command n) s evs = s"
  by (induction evs) (simp_all add: step_idle)

lemma step_halted: "halted s \<noteq> None \<Longrightarrow> step c command n s ev = s"
  by (simp add: step_def)

lemma run_halted: "halted s \<noteq> None \<Longrightarrow> foldl (step c command n) s evs = s"
  by (induction evs) (simp_all add: step_halted)

lemma script_fields:
  "running (script c command hosts) = []"
  "halted (script c command hosts) = None"
  "tasks (script c command hosts) = zip [0..<length hosts] hosts"
  "outputs (script c command hosts) = foldl (\<lambda>ob host. obj_set ob host []) [] hosts"
  "exitcode (script c command hosts) = 0"
  "completed (script c command hosts) = 0"
  "drains (script c command hosts) = 0"
  "lasthost (script c command hosts) = None"
  by (simp_all add: script_def announced_def Let_def vlog_def emit_def progress_def init_def)

lemma script_trace:
  "trace (script c command hosts) =
     (if debug c then [Vlog_starting, Vlog_pid, Vlog_hosts (length hosts) hosts,
                       Vlog_command command, Vlog_maxjobs (maxjobs c)] else [])
     @ (if join c then [Progress 0 (length hosts) True] else [])"
  by (simp add: script_def announced_def Let_def vlog_def emit_def progress_def init_def)

lemma announced_fields:
  "running (announced c command hosts) = []"
  "tasks (announced c command hosts) = []"
  "outputs (announced c command hosts) = []"
  "exitcode (announced c command hosts) = 0"
  "completed (announced c command hosts) = 0"
  "drains (announced c command hosts) = 0"
  by (simp_all add: announced_def vlog_def emit_def init_def)

lemma announced_trace:
  "trace (announced c command hosts) =
     (if debug c then [Vlog_starting, Vlog_pid, Vlog_hosts (length hosts) hosts,
                       Vlog_command command, Vlog_maxjobs (maxjobs c)] else [])"
  by (simp add: announced_def vlog_def emit_def init_def)

lemma settle_fields:
  "tasks (settle s) = tasks s"
  "running (settle s) = running s"
  "outputs (settle s) = outputs s"
  "exitcode (settle s) = exitcode s"
  "lasthost (settle s) = lasthost s"
  "completed (settle s) = completed s"
  "trace (settle s) = trace s"
  "drains (settle s) = drains s"
  by (simp_all add: settle_def)

lemma settle_halted [simp]: "halted s \<noteq> None \<Longrightarrow> settle s = s"
  by (simp add: settle_def)

lemma settle_running [simp]: "running s \<noteq> [] \<Longrightarrow> settle s = s"
  by (simp add: settle_def)

lemma settle_idle: "halted s = None \<Longrightarrow> running s = [] \<Longrightarrow> settle s = s\<lparr>halted := Some Loop_empty\<rparr>"
  by (simp add: settle_def)

lemma rejected_cap: "rejected q c \<Longrightarrow> maxjobs c \<le> 0"
  by (auto simp: rejected_def)

lemma sshp_rejected:
  "validate c command = Inr () \<Longrightarrow> rejected q c \<Longrightarrow>
     sshp q c command content evs
       = (announced c command (read_hosts content))\<lparr>halted := Some Uncaught\<rparr>"
  by (simp add: sshp_def)

lemma sshp_nonpositive_maxjobs:
  assumes "maxjobs c \<le> 0" and "validate c command = Inr ()" and "\<not> rejected q c"
    and "read_hosts content \<noteq> []"
  shows "sshp q c command content evs
           = (script c command (read_hosts content))\<lparr>halted := Some Loop_empty\<rparr>"
proof -
  have "admit c command (script c command (read_hosts content))
          = script c command (read_hosts content)"
    using assms(1) by (simp add: admit_no_room script_fields)
  then have "start q c command (read_hosts content)
          = (script c command (read_hosts content))\<lparr>halted := Some Loop_empty\<rparr>"
    using assms(4) by (simp add: start_def settle_idle script_fields)
  then show ?thesis
    using assms(2,3) by (simp add: sshp_def run_halted)
qed

lemma sshp_no_hosts:
  assumes "read_hosts content = []" and "validate c command = Inr ()" and "\<not> rejected q c"
  shows "sshp q c command content evs
           = (if drains_unpushed q then drain c (script c command [])
              else (script c command [])\<lparr>halted := Some Loop_empty\<rparr>)"
proof -
  have "start q c command [] = (if drains_unpushed q then drain c (script c command [])
              else (script c command [])\<lparr>halted := Some Loop_empty\<rparr>)"
    by (simp add: start_def settle_idle script_fields drain_halts)
  then show ?thesis
    using assms by (simp add: sshp_def run_halted drain_halts)
qed

section \<open>The drain handler and dry runs\<close>

lemma apply_option_dryrun_debug:
  "apply_option c x = Inr c' \<Longrightarrow> dryrun c \<longrightarrow> debug c \<Longrightarrow> dryrun c' \<longrightarrow> debug c'"
  by (cases x) auto

lemma getopts_dryrun_debug:
  "getopts c opts = Inr c' \<Longrightarrow> dryrun c \<longrightarrow> debug c \<Longrightarrow> dryrun c' \<longrightarrow> debug c'"
proof (induction opts arbitrary: c)
  case Nil
  then show ?case by simp
next
  case (Cons x xs)
  then show ?case
    by (auto split: sum.splits dest: apply_option_dryrun_debug)
qed

lemma update_empty_texts:
  "\<forall>v \<in> snd ` set ob. v = [] \<Longrightarrow> \<forall>v \<in> snd ` set (AList.update k [] ob). v = []"
  by (induction ob) auto

lemma pushed_outputs_empty:
  "\<forall>v \<in> snd ` set ob. v = [] \<Longrightarrow>
     \<forall>v \<in> snd ` set (foldl (\<lambda>ob host. obj_set ob host []) ob hosts). v = []"
proof (induction hosts arbitrary: ob)
  case Nil
  then show ?case by simp
next
  case (Cons h hs)
  have "\<forall>v \<in> snd ` set (obj_set ob h []). v = []"
    using Cons.prems update_empty_texts [of ob h] by (simp add: obj_set_def)
  then show ?case using Cons.IH by simp
qed

lemma own_value_empty_texts:
  "\<forall>v \<in> snd ` set ob. v = [] \<Longrightarrow> own_value [] ob k = []"
  by (auto simp: own_value_def split: option.splits dest!: map_of_SomeD)

lemma diff_push_empty_text: "diff_push diff [] host \<noteq> None"
  by (simp add: diff_push_def proto_names_def split: option.splits)

lemma build_diff_empty_texts:
  "\<forall>v \<in> snd ` set ob. v = [] \<Longrightarrow> build_diff ob ks diff \<noteq> None"
proof (induction ks arbitrary: diff)
  case Nil
  then show ?case by simp
next
  case (Cons k ks)
  then show ?case
    using diff_push_empty_text by (auto simp: own_value_empty_texts split: option.splits)
qed

lemma summary_empty_texts: "\<forall>v \<in> snd ` set ob. v = [] \<Longrightarrow> summary ob \<noteq> None"
  using build_diff_empty_texts [of ob "obj_keys ob" "[]"]
  by (auto simp: summary_def Let_def split: option.splits)

lemma summary_effects:
  "summary ob = Some effs \<Longrightarrow> filter is_spawn effs = [] \<and> filter is_vlog_cmd effs = []"
  by (auto simp: summary_def Let_def group_lines_def filter_concat comp_def split: option.splits)

lemma drain_fields:
  "exitcode (drain c s) = exitcode s"
  "completed (drain c s) = completed s"
  "running (drain c s) = running s"
  "drains (drain c s) = drains s + 1"
  "outputs (drain c s) = outputs s"
  "lasthost (drain c s) = lasthost s"
  "halted (drain c s) \<noteq> None"
  by (simp_all add: drain_def finish_def vlog_def emit_def Let_def split: option.splits)

lemma drain_spawns: "spawns (drain c s) = spawns s"
  by (auto simp: drain_def finish_def vlog_def emit_def Let_def spawns_def
      split: option.splits dest: summary_effects)

lemma drain_vlog_cmds:
  "filter is_vlog_cmd (trace (drain c s)) = filter is_vlog_cmd (trace s)"
  by (auto simp: drain_def finish_def vlog_def emit_def Let_def
      split: option.splits dest: summary_effects)

lemma drain_exits:
  "\<not> (join c \<and> \<not> group c) \<or> summary (outputs s) \<noteq> None \<Longrightarrow>
     halted (drain c s) = Some (Exited (exitcode s))"
  by (auto simp: drain_def finish_def vlog_def emit_def Let_def split: option.splits)


lemma admit_dryrun:
  assumes "dryrun c" and "debug c" and "0 < maxjobs c"
  shows "running s = [] \<Longrightarrow> halted s = None \<Longrightarrow> tasks s = ts \<Longrightarrow>
     admit c command s =
       (if ts = [] then s
        else drain c (s\<lparr>tasks := [], running := [],
               trace := trace s @ map (\<lambda>t. Vlog_cmd (snd t) (sshcommand c @ [Str (snd t)] @ map Str command)) ts\<rparr>))"
proof (induction ts arbitrary: s)
  case Nil
  then show ?case by simp
next
  case (Cons t rest)
  let ?v = "Vlog_cmd (snd t) (sshcommand c @ [Str (snd t)] @ map Str command)"
  let ?s1 = "s\<lparr>tasks := rest, running := [], trace := trace s @ [?v]\<rparr>"
  have ph: "processhost c command t (s\<lparr>tasks := rest, running := running s @ [t]\<rparr>)
              = (if rest = [] then drain c ?s1 else ?s1)"
    using assms(1,2) Cons.prems(1)
    by (cases s) (simp add: processhost_def task_done_def vlog_def emit_def Let_def)
  have unfold: "admit c command s
              = admit c command (processhost c command t (s\<lparr>tasks := rest, running := running s @ [t]\<rparr>))"
    using Cons.prems assms(3) by (subst admit.simps) simp
  show ?case
  proof (cases "rest = []")
    case True
    then show ?thesis
      using unfold ph by (cases s) simp
  next
    case False
    have "admit c command ?s1 =
            drain c (?s1\<lparr>tasks := [], running := [],
               trace := trace ?s1 @ map (\<lambda>t. Vlog_cmd (snd t) (sshcommand c @ [Str (snd t)] @ map Str command)) rest\<rparr>)"
      using Cons.IH [of ?s1] Cons.prems False by simp
    then show ?thesis
      using unfold ph False by (cases s) simp
  qed
qed

lemma start_dryrun:
  assumes "dryrun c" and "debug c" and "0 < maxjobs c" and "hosts \<noteq> []"
  shows "start q c command hosts =
     drain c ((script c command hosts)\<lparr>tasks := [], running := [],
        trace := trace (script c command hosts)
           @ map (\<lambda>h. Vlog_cmd h (sshcommand c @ [Str h] @ map Str command)) hosts\<rparr>)"
proof -
  have meq: "map (\<lambda>t. Vlog_cmd (snd t) (sshcommand c @ [Str (snd t)] @ map Str command))
          (zip [0..<length hosts] hosts)
        = map (\<lambda>h. Vlog_cmd h (sshcommand c @ [Str h] @ map Str command)) hosts"
    by (rule nth_equalityI) simp_all
  have "length (zip [0..<length hosts] hosts) = length hosts"
    by simp
  then have z: "zip [0..<length hosts] hosts \<noteq> []"
    using assms(4) by auto
  have a: "admit c command (script c command hosts) =
       (if zip [0..<length hosts] hosts = [] then script c command hosts
        else drain c ((script c command hosts)\<lparr>tasks := [], running := [],
               trace := trace (script c command hosts)
                 @ map (\<lambda>t. Vlog_cmd (snd t) (sshcommand c @ [Str (snd t)] @ map Str command))
                     (zip [0..<length hosts] hosts)\<rparr>))"
    by (rule admit_dryrun [OF assms(1-3)]) (simp_all add: script_fields)
  have "admit c command (script c command hosts) =
       drain c ((script c command hosts)\<lparr>tasks := [], running := [],
          trace := trace (script c command hosts)
             @ map (\<lambda>h. Vlog_cmd h (sshcommand c @ [Str h] @ map Str command)) hosts\<rparr>)"
    unfolding a by (simp only: z if_False meq)
  then show ?thesis
    using assms(4) by (simp add: start_def)
qed


lemma main_parsed: "getopts defaults opts = Inr c \<Longrightarrow> main q opts command content evs = sshp q c command content evs"
  by (simp add: main_def)

lemma sshp_dryrun:
  assumes "dryrun c" and "debug c" and "0 < maxjobs c" and "read_hosts content \<noteq> []"
    and "validate c command = Inr ()"
  shows "sshp q c command content evs =
     drain c ((script c command (read_hosts content))\<lparr>tasks := [], running := [],
        trace := trace (script c command (read_hosts content))
           @ map (\<lambda>h. Vlog_cmd h (sshcommand c @ [Str h] @ map Str command)) (read_hosts content)\<rparr>)"
  using assms(3,5)
  by (simp add: sshp_def rejected_def start_dryrun [OF assms(1-4)] run_halted)

lemma drain_no_hosts:
  "halted (drain c (script c command [])) = Some (Exited 0)"
  "drains (drain c (script c command [])) = 1"
  "exitcode (drain c (script c command [])) = 0"
  "completed (drain c (script c command [])) = 0"
  "running (drain c (script c command [])) = []"
  "tasks (drain c (script c command [])) = []"
  "trace (drain c (script c command [])) =
     trace (script c command [])
     @ (if join c \<and> \<not> group c then [Summary_head 0] else [])
     @ (if debug c then [Vlog_finished] else [])"
  by (simp_all add: drain_def finish_def summary_def obj_keys_def own_keys_def script_fields
      vlog_def emit_def Let_def)

section \<open>The invariant is kept\<close>

lemma length_filter_job:
  "distinct (map fst xs) \<Longrightarrow> map_of xs j = Some h \<Longrightarrow>
     Suc (length (filter (\<lambda>t. fst t \<noteq> j) xs)) = length xs"
proof (induction xs)
  case Nil
  then show ?case by simp
next
  case (Cons x xs)
  show ?case
  proof (cases "fst x = j")
    case True
    then have "j \<notin> fst ` set xs" using Cons.prems(1) by auto
    then have "filter (\<lambda>t. fst t \<noteq> j) xs = xs"
      by (auto simp: filter_id_conv)
    then show ?thesis using True by simp
  next
    case False
    then show ?thesis using Cons by (cases x) auto
  qed
qed

lemma processhost_live:
  "\<not> dryrun c \<Longrightarrow> processhost c command t s =
     s\<lparr>trace := trace s
          @ (if debug c then [Vlog_cmd (snd t) (sshcommand c @ [Str (snd t)] @ map Str command)] else [])
          @ [Spawn (Str ''ssh'') (tl (sshcommand c) @ [Str (snd t)] @ map Str command)]\<rparr>"
  by (cases s) (simp add: processhost_def vlog_def emit_def Let_def sshcommand_def)

lemma script_inv: "queue_inv c (length hosts) (script c command hosts)"
  by (simp add: queue_inv_def script_fields)

lemma processhost_inv:
  assumes "queue_inv c n s" and "tasks s = t # rest" and "halted s = None"
    and "int (length (running s)) < maxjobs c"
  shows "queue_inv c n (processhost c command t (s\<lparr>tasks := rest, running := running s @ [t]\<rparr>))"
proof (cases "dryrun c")
  case False
  then show ?thesis
    using assms by (simp add: processhost_live queue_inv_def)
next
  case True
  then have r: "running s = []"
    using assms(1) by (auto simp: queue_inv_def)
  show ?thesis
    using assms True r
    by (simp add: processhost_def task_done_def Let_def queue_inv_def vlog_def emit_def
        drain_def finish_def split: option.splits)
qed

lemma admit_inv: "queue_inv c n s \<Longrightarrow> queue_inv c n (admit c command s)"
  by (rule admit_rule [where P = "queue_inv c n"]) (simp_all add: processhost_inv)


lemma on_data_fields:
  "tasks (on_data c st host d s) = tasks s"
  "running (on_data c st host d s) = running s"
  "completed (on_data c st host d s) = completed s"
  "exitcode (on_data c st host d s) = exitcode s"
  "drains (on_data c st host d s) = drains s"
  "halted (on_data c st host d s) = halted s"
  by (simp_all add: on_data_def out_def err_def emit_def split: stream.splits)

lemma on_data_inv: "queue_inv c n s \<Longrightarrow> queue_inv c n (on_data c st host d s)"
  by (simp add: queue_inv_def on_data_fields)

lemma on_close_closed:
  "on_close c command n j host code s
     = settle (admit c command (task_done c j (closed c n host code s)))"
  by (simp add: on_close_def)

lemma settle_inv: "queue_inv c n s \<Longrightarrow> queue_inv c n (settle s)"
  by (auto simp: queue_inv_def settle_def)

lemma closed_fields:
  "tasks (closed c n host code s) = tasks s"
  "running (closed c n host code s) = running s"
  "completed (closed c n host code s) = completed s + 1"
  "exitcode (closed c n host code s) = exitcode s + to_number code"
  "drains (closed c n host code s) = drains s"
  "halted (closed c n host code s) = halted s"
  "outputs (closed c n host code s) = outputs s"
  by (simp_all add: closed_def emit_def progress_def Let_def)

lemma task_done_inv:
  assumes "queue_inv c n s" and "map_of (running s) j = Some host" and "halted s = None"
  shows "queue_inv c n (task_done c j (closed c n host code s))"
proof -
  have ne: "running s \<noteq> []"
    using assms(2) by auto
  have d: "distinct (map fst (running s))"
    using assms(1) by (simp add: queue_inv_def)
  have len: "Suc (length (filter (\<lambda>t. fst t \<noteq> j) (running s))) = length (running s)"
    by (rule length_filter_job [OF d assms(2)])
  have d2: "distinct (map fst (filter (\<lambda>t. fst t \<noteq> j) (running s) @ tasks s))"
    using assms(1) by (auto simp: queue_inv_def distinct_map_filter)
  show ?thesis
    using assms(1,3) ne len d2
    by (auto simp: queue_inv_def task_done_def Let_def closed_fields drain_fields
        drain_def finish_def vlog_def emit_def split: option.splits)
qed

lemma step_inv:
  assumes "queue_inv c n s"
  shows "queue_inv c n (step c command n s ev)"
proof (cases "halted s = None")
  case False
  then show ?thesis using assms by (simp add: step_def)
next
  case True
  show ?thesis
  proof (cases ev)
    case (Data j st d)
    then show ?thesis
      using assms True by (simp add: step_def on_data_inv split: option.splits)
  next
    case (Close j code)
    then show ?thesis
      using assms True
      by (simp add: step_def on_close_closed settle_inv admit_inv task_done_inv
          split: option.splits)
  next
    case (Error j)
    then show ?thesis
      using assms True by (auto simp: step_def queue_inv_def split: option.splits)
  qed
qed

lemma run_inv: "queue_inv c n s \<Longrightarrow> queue_inv c n (foldl (step c command n) s evs)"
  by (induction evs arbitrary: s) (simp_all add: step_inv)

lemma drain_script_inv: "queue_inv c 0 (drain c (script c command []))"
  by (simp add: queue_inv_def drain_fields script_fields drain_def finish_def vlog_def
      emit_def Let_def split: option.splits)

lemma start_inv: "queue_inv c (length hosts) (start q c command hosts)"
proof (cases "hosts = [] \<and> drains_unpushed q")
  case True
  then show ?thesis
    using settle_inv [OF drain_script_inv] by (simp add: start_def)
next
  case False
  then show ?thesis
    using settle_inv [OF admit_inv [OF script_inv]] by (auto simp: start_def)
qed

lemma admit_saturated: "saturated c (admit c command s)"
  using admit_post [of c command s] by (simp add: saturated_def)

lemma settle_saturated: "saturated c s \<Longrightarrow> saturated c (settle s)"
  by (simp add: saturated_def settle_def)

lemma start_saturated: "saturated c (start q c command hosts)"
proof (cases "hosts = [] \<and> drains_unpushed q")
  case True
  have "saturated c (drain c (script c command hosts))"
    by (simp add: saturated_def)
  then show ?thesis
    using True by (simp add: start_def)
next
  case False
  then show ?thesis
    using settle_saturated [OF admit_saturated] by (auto simp: start_def)
qed

lemma step_saturated:
  assumes "saturated c s"
  shows "saturated c (step c command n s ev)"
proof (cases "halted s = None")
  case False
  then show ?thesis using assms by (simp add: step_def)
next
  case True
  show ?thesis
  proof (cases ev)
    case (Data j st d)
    then show ?thesis
      using assms True
      by (auto simp: step_def saturated_def on_data_fields split: option.splits)
  next
    case (Close j code)
    then show ?thesis
      using assms True
      by (simp add: step_def on_close_closed settle_saturated admit_saturated
          split: option.splits)
  next
    case (Error j)
    then show ?thesis
      using assms True by (auto simp: step_def saturated_def split: option.splits)
  qed
qed

lemma run_saturated: "saturated c s \<Longrightarrow> saturated c (foldl (step c command n) s evs)"
  by (induction evs arbitrary: s) (simp_all add: step_saturated)

lemma sshp_valid:
  "validate c command = Inr () \<Longrightarrow> \<not> rejected q c \<Longrightarrow>
     sshp q c command content evs =
       foldl (step c command (length (read_hosts content))) (start q c command (read_hosts content)) evs"
  by (simp add: sshp_def)

lemma sshp_invalid:
  "validate c command \<noteq> Inr () \<Longrightarrow>
     \<exists>msg. sshp q c command content evs = init\<lparr>trace := [Console_error msg], halted := Some (Exited 1)\<rparr>"
  by (cases "validate c command") (auto simp: sshp_def)

lemma sshp_inv:
  assumes "validate c command = Inr ()" and "\<not> rejected q c"
  shows "queue_inv c (length (read_hosts content)) (sshp q c command content evs)"
    and "saturated c (sshp q c command content evs)"
proof -
  show "queue_inv c (length (read_hosts content)) (sshp q c command content evs)"
    unfolding sshp_valid [OF assms] by (rule run_inv [OF start_inv])
  show "saturated c (sshp q c command content evs)"
    unfolding sshp_valid [OF assms] by (rule run_saturated [OF start_saturated])
qed

lemma sshp_snoc:
  "sshp q c command content (evs @ [ev]) =
     step c command (length (read_hosts content)) (sshp q c command content evs) ev"
  by (cases "validate c command") (simp_all add: sshp_def step_def)

lemma sshp_live:
  "validate c command = Inr () \<Longrightarrow> halted (sshp q c command content evs) = None \<Longrightarrow>
     \<not> rejected q c"
  by (auto simp: sshp_def)

lemma task_done_fields:
  "completed (task_done c j s) = completed s"
  "exitcode (task_done c j s) = exitcode s"
  "outputs (task_done c j s) = outputs s"
  by (simp_all add: task_done_def Let_def drain_fields)

lemma processhost_fields:
  "completed (processhost c command t s) = completed s"
  "exitcode (processhost c command t s) = exitcode s"
  "outputs (processhost c command t s) = outputs s"
  by (simp_all add: processhost_def Let_def task_done_fields vlog_def emit_def)

lemma admit_completed: "completed (admit c command s) = completed s"
  by (rule admit_rule [where P = "\<lambda>s'. completed s' = completed s"])
    (simp_all add: processhost_fields)

lemma admit_exitcode: "exitcode (admit c command s) = exitcode s"
  by (rule admit_rule [where P = "\<lambda>s'. exitcode s' = exitcode s"])
    (simp_all add: processhost_fields)

lemma admit_outputs: "outputs (admit c command s) = outputs s"
  by (rule admit_rule [where P = "\<lambda>s'. outputs s' = outputs s"])
    (simp_all add: processhost_fields)

lemma step_completed_mono: "completed s \<le> completed (step c command n s ev)"
  by (cases ev)
    (simp_all add: step_def on_data_fields on_close_closed settle_fields admit_completed
      task_done_fields closed_fields split: option.splits)

lemma run_completed_mono: "completed s \<le> completed (foldl (step c command n) s evs)"
proof (induction evs arbitrary: s)
  case Nil
  show ?case by simp
next
  case (Cons ev evs)
  have "completed s \<le> completed (step c command n s ev)"
    by (rule step_completed_mono)
  also have "\<dots> \<le> completed (foldl (step c command n) (step c command n s ev) evs)"
    by (rule Cons.IH)
  finally show ?case by simp
qed

lemma sshp_append:
  "sshp q c command content (evs @ evs') =
     foldl (step c command (length (read_hosts content))) (sshp q c command content evs) evs'"
  by (cases "validate c command") (simp_all add: sshp_def run_halted)

lemma sshp_stuck:
  "validate c command \<noteq> Inr () \<or> rejected q c \<Longrightarrow>
     completed (sshp q c command content evs) = 0 \<and> drains (sshp q c command content evs) = 0
     \<and> halted (sshp q c command content evs) \<noteq> None"
  by (cases "validate c command") (auto simp: sshp_def init_def announced_fields)

lemma admit_stop:
  "tasks s = [] \<or> maxjobs c \<le> int (length (running s)) \<Longrightarrow> admit c command s = s"
  by (auto simp: admit_no_room)

lemma closed_spawns: "spawns (closed c n host code s) = spawns s"
  by (simp add: closed_def spawns_def emit_def progress_def Let_def)

lemma close_running_job:
  assumes "validate c command = Inr ()"
    and "halted (sshp q c command content evs) = None"
    and "map_of (running (sshp q c command content evs)) j = Some host"
  shows "exitcode (sshp q c command content (evs @ [Close j code]))
           = exitcode (sshp q c command content evs) + to_number code
         \<and> completed (sshp q c command content (evs @ [Close j code]))
           = completed (sshp q c command content evs) + 1
         \<and> (case tasks (sshp q c command content evs) of
               t # rest \<Rightarrow>
                 halted (sshp q c command content (evs @ [Close j code])) = None
                 \<and> tasks (sshp q c command content (evs @ [Close j code])) = rest
                 \<and> running (sshp q c command content (evs @ [Close j code]))
                     = filter (\<lambda>t. fst t \<noteq> j) (running (sshp q c command content evs)) @ [t]
                 \<and> spawns (sshp q c command content (evs @ [Close j code]))
                     = spawns (sshp q c command content evs)
                       @ [Spawn (Str ''ssh'') (tl (sshcommand c) @ [Str (snd t)] @ map Str command)]
             | [] \<Rightarrow>
                 tasks (sshp q c command content (evs @ [Close j code])) = []
                 \<and> running (sshp q c command content (evs @ [Close j code]))
                     = filter (\<lambda>t. fst t \<noteq> j) (running (sshp q c command content evs))
                 \<and> (if filter (\<lambda>t. fst t \<noteq> j) (running (sshp q c command content evs)) = []
                     then drains (sshp q c command content (evs @ [Close j code])) = 1
                     else halted (sshp q c command content (evs @ [Close j code])) = None))"
proof -
  define n where "n = length (read_hosts content)"
  define s where "s = sshp q c command content evs"
  define s2 where "s2 = closed c n host code s"
  define R where "R = filter (\<lambda>t. fst t \<noteq> j) (running s)"
  have nr: "\<not> rejected q c"
    by (rule sshp_live [OF assms(1,2)])
  have inv: "queue_inv c n s" and sat: "saturated c s"
    unfolding n_def s_def by (rule sshp_inv [OF assms(1) nr])+
  have h: "halted s = None" and m: "map_of (running s) j = Some host"
    using assms(2,3) by (simp_all add: s_def)
  have ne: "running s \<noteq> []"
    using m by auto
  then have live: "\<not> dryrun c" and cap: "int (length (running s)) \<le> maxjobs c"
    using inv by (auto simp: queue_inv_def)
  have "0 < n"
    using inv ne live by (cases "running s") (auto simp: queue_inv_def)
  then have d0: "drains s = 0"
    using inv ne live by (auto simp: queue_inv_def)
  have "distinct (map fst (running s))"
    using inv by (simp add: queue_inv_def)
  then have len: "Suc (length R) = length (running s)"
    unfolding R_def using m by (rule length_filter_job)
  have s': "sshp q c command content (evs @ [Close j code])
      = settle (admit c command (task_done c j s2))"
    using h m by (simp add: sshp_snoc step_def on_close_closed s_def s2_def n_def)
  show ?thesis
  proof (cases "tasks s")
    case Nil
    have td: "task_done c j s2 = (if R = [] then drain c (s2\<lparr>running := R\<rparr>) else s2\<lparr>running := R\<rparr>)"
      using Nil by (simp add: task_done_def Let_def s2_def closed_fields R_def)
    have "tasks (task_done c j s2) = []"
      using Nil by (simp add: s2_def closed_fields)
    then have "sshp q c command content (evs @ [Close j code]) = settle (task_done c j s2)"
      using s' by simp
    moreover have "settle (task_done c j s2) = task_done c j s2"
      unfolding td by (cases "R = []") simp_all
    ultimately have "sshp q c command content (evs @ [Close j code]) = task_done c j s2"
      by simp
    then show ?thesis
      using Nil td h d0
      by (simp add: s_def [symmetric] R_def [symmetric] drain_fields s2_def closed_fields)
  next
    case (Cons t rest)
    define s4 where "s4 = processhost c command t (s2\<lparr>running := R, tasks := rest, running := R @ [t]\<rparr>)"
    have td: "task_done c j s2 = s2\<lparr>running := R\<rparr>"
      using Cons by (simp add: task_done_def Let_def s2_def closed_fields R_def)
    have "admit c command (s2\<lparr>running := R\<rparr>) = admit c command s4"
      using Cons h cap len
      by (subst admit.simps) (simp add: s2_def closed_fields s4_def)
    moreover have s4: "s4 = s2\<lparr>tasks := rest, running := R @ [t],
        trace := trace s2
          @ (if debug c then [Vlog_cmd (snd t) (sshcommand c @ [Str (snd t)] @ map Str command)] else [])
          @ [Spawn (Str ''ssh'') (tl (sshcommand c) @ [Str (snd t)] @ map Str command)]\<rparr>"
      unfolding s4_def by (cases s2) (simp add: processhost_live [OF live])
    moreover have "admit c command s4 = s4"
    proof (rule admit_stop)
      have "maxjobs c \<le> int (length (running s))"
        using sat h Cons by (simp add: saturated_def)
      then show "tasks s4 = [] \<or> maxjobs c \<le> int (length (running s4))"
        using len by (simp add: s4)
    qed
    moreover have "settle s4 = s4"
      by (simp add: s4)
    ultimately have "sshp q c command content (evs @ [Close j code]) = s4"
      using s' td by simp
    then show ?thesis
      using Cons h closed_spawns [of c n host code s]
      by (simp add: s_def [symmetric] R_def [symmetric] s4 s2_def [symmetric] spawns_def)
        (simp add: s2_def closed_fields)
  qed
qed

lemma close_completed:
  "halted s = None \<Longrightarrow> map_of (running s) j = Some host \<Longrightarrow>
     completed (step c command n s (Close j code)) = completed s + 1"
  by (simp add: step_def on_close_def settle_fields admit_completed task_done_fields
      closed_fields)

lemma can_complete:
  assumes "validate c command = Inr ()" and "\<not> dryrun c" and "0 < maxjobs c"
  shows "halted (sshp q c command content evs) = None \<Longrightarrow>
         length (read_hosts content) - completed (sshp q c command content evs) = k \<Longrightarrow>
         \<exists>evs'. completed (sshp q c command content (evs @ evs')) = length (read_hosts content)"
proof (induction k arbitrary: evs)
  case 0
  have nr: "\<not> rejected q c"
    using assms(3) by (auto simp: rejected_def)
  have "queue_inv c (length (read_hosts content)) (sshp q c command content evs)"
    by (rule sshp_inv(1) [OF assms(1) nr])
  then have "completed (sshp q c command content evs) = length (read_hosts content)"
    using 0 assms(2) by (auto simp: queue_inv_def)
  then have "completed (sshp q c command content (evs @ [])) = length (read_hosts content)"
    by simp
  then show ?case by blast
next
  case (Suc k)
  let ?n = "length (read_hosts content)"
  let ?s = "sshp q c command content evs"
  have nr: "\<not> rejected q c"
    using assms(3) by (auto simp: rejected_def)
  have inv: "queue_inv c ?n ?s" and sat: "saturated c ?s"
    by (rule sshp_inv [OF assms(1) nr])+
  have "running ?s \<noteq> []"
  proof (cases "tasks ?s")
    case Nil
    then show ?thesis
      using inv Suc.prems assms(2) by (auto simp: queue_inv_def)
  next
    case (Cons t rest)
    then have "maxjobs c \<le> int (length (running ?s))"
      using sat Suc.prems(1) by (simp add: saturated_def)
    then show ?thesis
      using assms(3) by auto
  qed
  then obtain j host rest where r: "running ?s = (j, host) # rest"
    by (cases "running ?s") auto
  then have m: "map_of (running ?s) j = Some host"
    by simp
  let ?ev = "Close j (Some 0)"
  let ?s' = "sshp q c command content (evs @ [?ev])"
  have c': "completed ?s' = completed ?s + 1"
    using close_completed [OF Suc.prems(1) m] by (simp add: sshp_snoc)
  have inv': "queue_inv c ?n ?s'"
    by (rule sshp_inv(1) [OF assms(1) nr])
  show ?case
  proof (cases "halted ?s' = None")
    case True
    have "?n - completed ?s' = k"
      using Suc.prems(2) c' by simp
    then obtain evs' where "completed (sshp q c command content ((evs @ [?ev]) @ evs')) = ?n"
      using Suc.IH [OF True] by blast
    then have "completed (sshp q c command content (evs @ (?ev # evs'))) = ?n"
      by simp
    then show ?thesis by blast
  next
    case False
    have "halted ?s' = None \<or> (running ?s' = [] \<and> tasks ?s' = [])"
      using close_running_job [OF assms(1) Suc.prems(1) m, of "Some 0"]
      by (cases "tasks ?s") (auto split: if_splits)
    then have "completed ?s' = ?n"
      using False inv' assms(2) by (auto simp: queue_inv_def)
    then have "completed (sshp q c command content (evs @ [?ev])) = ?n"
      by simp
    then show ?thesis by blast
  qed
qed

section \<open>The summary of join mode\<close>

lemma own_keys_plain: "\<forall>k \<in> set ks. \<not> is_array_index k \<Longrightarrow> own_keys ks = ks"
proof -
  assume a: "\<forall>k \<in> set ks. \<not> is_array_index k"
  then have "filter is_array_index ks = []"
    by (simp add: filter_empty_conv)
  moreover have "filter (\<lambda>k. \<not> is_array_index k) ks = ks"
    using a by (simp add: filter_id_conv)
  ultimately show ?thesis
    by (simp add: own_keys_def)
qed

lemma update_existing:
  "k \<in> fst ` set al \<Longrightarrow> distinct (map fst al) \<Longrightarrow>
     AList.update k v al = map (\<lambda>p. if fst p = k then (k, v) else p) al"
proof (induction al)
  case Nil
  then show ?case by simp
next
  case (Cons p ps)
  show ?case
  proof (cases "fst p = k")
    case True
    then have "k \<notin> fst ` set ps"
      using Cons.prems(2) by auto
    then have "map (\<lambda>p. if fst p = k then (k, v) else p) ps = ps"
      by (intro map_idI) force
    then show ?thesis using True by simp
  next
    case False
    then show ?thesis using Cons by auto
  qed
qed

lemma first_seen_snoc:
  "first_seen (xs @ [x]) = (if x \<in> set xs then first_seen xs else first_seen xs @ [x])"
  by (simp add: first_seen_def)

lemma set_first_seen [simp]: "set (first_seen xs) = set xs"
  by (simp add: first_seen_def)

lemma distinct_first_seen [simp]: "distinct (first_seen xs)"
  by (simp add: first_seen_def)

lemma keys_spec_groups: "map fst (spec_groups ob) = first_seen (map snd ob)"
  by (simp add: spec_groups_def comp_def)

lemma length_spec_groups: "length (spec_groups ob) = length (first_seen (map snd ob))"
  by (simp add: spec_groups_def)

lemma map_of_spec_groups:
  "map_of (spec_groups ob) t = (if t \<in> snd ` set ob then Some (hosts_with t ob) else None)"
  by (simp add: spec_groups_def map_of_map_restrict restrict_map_def)

lemma hosts_with_snoc:
  "hosts_with u (ps @ [(h, t)]) = hosts_with u ps @ (if t = u then [h] else [])"
  by (simp add: hosts_with_def)

lemma hosts_with_absent: "t \<notin> snd ` set ps \<Longrightarrow> hosts_with t ps = []"
  by (auto simp: hosts_with_def filter_empty_conv)

lemma spec_groups_snoc:
  "spec_groups (ps @ [(h, t)]) =
     (if t \<in> snd ` set ps
      then map (\<lambda>p. if fst p = t then (t, hosts_with t ps @ [h]) else p) (spec_groups ps)
      else spec_groups ps @ [(t, [h])])"
  by (auto simp: spec_groups_def first_seen_snoc hosts_with_snoc hosts_with_absent)

lemma diff_push_spec:
  assumes "t \<notin> set proto_names"
  shows "diff_push (spec_groups ps) t h = Some (spec_groups (ps @ [(h, t)]))"
proof (cases "t \<in> snd ` set ps")
  case True
  have "t \<in> fst ` set (spec_groups ps)"
    using True by (simp add: keys_spec_groups flip: set_map)
  moreover have "distinct (map fst (spec_groups ps))"
    by (simp add: keys_spec_groups)
  ultimately have "AList.update t (hosts_with t ps @ [h]) (spec_groups ps)
      = map (\<lambda>p. if fst p = t then (t, hosts_with t ps @ [h]) else p) (spec_groups ps)"
    by (rule update_existing)
  then show ?thesis
    using True by (simp add: diff_push_def map_of_spec_groups spec_groups_snoc)
next
  case False
  then show ?thesis
    using assms by (simp add: diff_push_def map_of_spec_groups spec_groups_snoc)
qed

lemma build_diff_append:
  "build_diff ob (xs @ ys) d =
     (case build_diff ob xs d of None \<Rightarrow> None | Some d' \<Rightarrow> build_diff ob ys d')"
  by (induction xs arbitrary: d) (simp_all split: option.splits)

lemma build_diff_spec:
  assumes "distinct (map fst ob)" and "\<forall>t \<in> snd ` set ob. t \<notin> set proto_names"
  shows "set ps \<subseteq> set ob \<Longrightarrow> build_diff ob (map fst ps) [] = Some (spec_groups ps)"
proof (induction ps rule: rev_induct)
  case Nil
  show ?case by (simp add: spec_groups_def first_seen_def)
next
  case (snoc p ps)
  obtain h t where p: "p = (h, t)" by (cases p)
  have mem: "(h, t) \<in> set ob"
    using snoc.prems p by simp
  then have "map_of ob h = Some t"
    using assms(1) by simp
  then have ov: "own_value [] ob h = t"
    by (simp add: own_value_def)
  have "t \<notin> set proto_names"
    using mem assms(2) by force
  then have "diff_push (spec_groups ps) t h = Some (spec_groups (ps @ [(h, t)]))"
    by (rule diff_push_spec)
  moreover have "build_diff ob (map fst ps) [] = Some (spec_groups ps)"
    using snoc by simp
  ultimately show ?case
    by (simp add: p build_diff_append ov)
qed

lemma summary_spec:
  assumes "distinct (map fst ob)"
    and "\<forall>h \<in> fst ` set ob. \<not> is_array_index h"
    and "\<forall>t \<in> snd ` set ob. \<not> is_array_index t \<and> t \<notin> set proto_names"
  shows "summary ob = Some (spec_summary ob)"
proof -
  have k1: "obj_keys ob = map fst ob"
    using assms(2) by (simp add: obj_keys_def own_keys_plain)
  have bd: "build_diff ob (map fst ob) [] = Some (spec_groups ob)"
    using build_diff_spec [OF assms(1), of ob] assms(3) by simp
  have k2: "obj_keys (spec_groups ob) = first_seen (map snd ob)"
    using assms(3) by (simp add: obj_keys_def keys_spec_groups own_keys_plain)
  have gl: "map (group_lines (spec_groups ob) (length ob)) (first_seen (map snd ob))
      = map (\<lambda>(text, hosts).
               [Group_hosts (length hosts) (length ob) (join_sp hosts),
                Group_text (if text = [] then ''no output'' @ [CHR 0x0A] else text)])
          (spec_groups ob)"
    by (simp add: spec_groups_def comp_def group_lines_def own_value_def
        map_of_spec_groups [unfolded spec_groups_def] Let_def cong: map_cong)
  show ?thesis
    by (simp add: summary_def Let_def k1 bd k2 gl spec_summary_def length_spec_groups)
qed

lemma obj_set_distinct: "distinct (map fst ob) \<Longrightarrow> distinct (map fst (obj_set ob k v))"
  by (simp add: obj_set_def distinct_update)

lemma pushed_outputs_distinct:
  "distinct (map fst ob) \<Longrightarrow> distinct (map fst (foldl (\<lambda>ob host. obj_set ob host []) ob hosts))"
  by (induction hosts arbitrary: ob) (simp_all add: obj_set_distinct)

lemma on_data_outputs_distinct:
  "distinct (map fst (outputs s)) \<Longrightarrow> distinct (map fst (outputs (on_data c st host d s)))"
  by (simp add: on_data_def out_def err_def emit_def output_append_def obj_set_distinct
      split: stream.splits)

lemma step_outputs_distinct:
  "distinct (map fst (outputs s)) \<Longrightarrow> distinct (map fst (outputs (step c command n s ev)))"
  by (cases ev)
    (simp_all add: step_def on_data_outputs_distinct on_close_def settle_fields admit_outputs
      task_done_fields closed_fields split: option.splits)

lemma run_outputs_distinct:
  "distinct (map fst (outputs s)) \<Longrightarrow>
     distinct (map fst (outputs (foldl (step c command n) s evs)))"
  by (induction evs arbitrary: s) (simp_all add: step_outputs_distinct)

lemma start_outputs: "outputs (start q c command hosts) = outputs (script c command hosts)"
  by (simp add: start_def settle_fields drain_fields admit_outputs)

lemma sshp_outputs_distinct: "distinct (map fst (outputs (sshp q c command content evs)))"
proof (cases "validate c command")
  case (Inl msg)
  then show ?thesis by (simp add: sshp_def init_def)
next
  case (Inr u)
  have "distinct (map fst (outputs (start q c command (read_hosts content))))"
    using pushed_outputs_distinct [of "[]"]
    by (simp add: start_outputs script_fields)
  then show ?thesis
    using Inr by (simp add: sshp_def run_outputs_distinct announced_fields)
qed

lemma pushed_keys:
  "map fst (foldl (\<lambda>ob host. obj_set ob host []) [] hosts)
     = first_seen (filter (\<lambda>h. h \<noteq> ''__proto__'') hosts)"
proof (induction hosts rule: rev_induct)
  case Nil
  show ?case by (simp add: first_seen_def)
next
  case (snoc h hs)
  show ?case
  proof (cases "h = ''__proto__''")
    case True
    then show ?thesis using snoc by (simp add: obj_set_def)
  next
    case False
    then show ?thesis
      using snoc by (simp add: obj_set_def update_keys first_seen_snoc)
  qed
qed

lemma script_hosts_known: "hosts_known hosts (script c command hosts)"
  by (auto simp: hosts_known_def script_fields pushed_keys dest: set_zip_rightD)

lemma drain_hosts_known: "hosts_known hosts s \<Longrightarrow> hosts_known hosts (drain c s)"
  by (simp add: hosts_known_def drain_fields)

lemma settle_hosts_known: "hosts_known hosts s \<Longrightarrow> hosts_known hosts (settle s)"
  by (simp add: hosts_known_def settle_fields)

lemma task_done_hosts_known: "hosts_known hosts s \<Longrightarrow> hosts_known hosts (task_done c j s)"
  by (auto simp: task_done_def Let_def hosts_known_def drain_fields)

lemma emit_hosts_known: "hosts_known hosts s \<Longrightarrow> hosts_known hosts (emit e s)"
  by (simp add: hosts_known_def emit_def)

lemma vlog_hosts_known: "hosts_known hosts s \<Longrightarrow> hosts_known hosts (vlog c e s)"
  by (simp add: vlog_def emit_hosts_known)

lemma processhost_hosts_known:
  assumes "hosts_known hosts s" and "tasks s = t # rest"
  shows "hosts_known hosts (processhost c command t (s\<lparr>tasks := rest, running := running s @ [t]\<rparr>))"
proof -
  have "hosts_known hosts (s\<lparr>tasks := rest, running := running s @ [t]\<rparr>)"
    using assms by (auto simp: hosts_known_def)
  then show ?thesis
    by (simp add: processhost_def Let_def vlog_hosts_known emit_hosts_known task_done_hosts_known)
qed

lemma admit_hosts_known: "hosts_known hosts s \<Longrightarrow> hosts_known hosts (admit c command s)"
  by (rule admit_rule [where P = "hosts_known hosts"]) (simp_all add: processhost_hosts_known)


lemma on_data_hosts_known:
  assumes "hosts_known hosts s" and "map_of (running s) j = Some host"
  shows "hosts_known hosts (on_data c st host d s)"
proof -
  have "host \<in> set hosts"
    using assms by (force simp: hosts_known_def dest!: map_of_SomeD)
  then have "map fst (output_append (outputs s) host d) = map fst (outputs s)"
    using assms(1)
    by (cases "host = ''__proto__''")
      (simp_all add: output_append_def obj_set_def update_keys hosts_known_def)
  then show ?thesis
    using assms(1)
    by (simp add: on_data_def out_def err_def emit_def hosts_known_def split: stream.splits)
qed

lemma closed_hosts_known: "hosts_known hosts s \<Longrightarrow> hosts_known hosts (closed c n host code s)"
  by (simp add: hosts_known_def closed_fields)

lemma step_hosts_known:
  assumes "hosts_known hosts s"
  shows "hosts_known hosts (step c command n s ev)"
proof (cases ev)
  case (Data j st d)
  then show ?thesis
    using assms by (simp add: step_def on_data_hosts_known split: option.splits)
next
  case (Close j code)
  then show ?thesis
    using assms
    by (simp add: step_def on_close_def settle_hosts_known admit_hosts_known
        task_done_hosts_known closed_hosts_known split: option.splits)
next
  case (Error j)
  have "hosts_known hosts (s\<lparr>halted := Some Uncaught\<rparr>)"
    using assms by (simp add: hosts_known_def)
  then show ?thesis
    using assms Error by (simp add: step_def split: option.splits)
qed

lemma run_hosts_known:
  "hosts_known hosts s \<Longrightarrow> hosts_known hosts (foldl (step c command n) s evs)"
  by (induction evs arbitrary: s) (simp_all add: step_hosts_known)

lemma start_hosts_known: "hosts_known hosts (start q c command hosts)"
  unfolding start_def
  by (auto intro!: settle_hosts_known drain_hosts_known admit_hosts_known script_hosts_known)

lemma sshp_hosts_known:
  assumes "validate c command = Inr ()" and "\<not> rejected q c"
  shows "hosts_known (read_hosts content) (sshp q c command content evs)"
  unfolding sshp_valid [OF assms] by (rule run_hosts_known [OF start_hosts_known])

lemma sshp_outputs_keys:
  assumes "validate c command = Inr ()" and "\<not> rejected q c"
  shows "map fst (outputs (sshp q c command content evs))
           = first_seen (filter (\<lambda>h. h \<noteq> ''__proto__'') (read_hosts content))"
  using sshp_hosts_known [OF assms] by (simp add: hosts_known_def)

lemma last_close:
  assumes "halted s = None" and "running s = [(j, host)]" and "tasks s = []"
  shows "step c command n s (Close j code) = drain c ((closed c n host code s)\<lparr>running := []\<rparr>)"
proof -
  have "task_done c j (closed c n host code s)
      = drain c ((closed c n host code s)\<lparr>running := []\<rparr>)"
    using assms by (simp add: task_done_def Let_def closed_fields)
  then show ?thesis
    using assms by (simp add: step_def on_close_def)
qed

lemma closed_trace:
  "trace (closed c n host code s)
     = trace s @ (if errorcodes c then [Exited_line host code]
                  else if join c then [Progress (completed s + 1) n True] else [])"
  by (simp add: closed_def emit_def progress_def Let_def)

lemma drain_summary:
  assumes "join c" and "\<not> group c" and "summary (outputs s) = Some effs"
  shows "trace (drain c s) = trace s @ effs @ (if debug c then [Vlog_finished] else [])"
    and "halted (drain c s) = Some (Exited (exitcode s))"
  using assms by (simp_all add: drain_def finish_def vlog_def emit_def Let_def)

section \<open>The aggregate exit status\<close>

lemma step_exitcode:
  "exitcode (step c command n s ev) =
     exitcode s + sum_list (map to_number (handled c command n s [ev]))"
  by (cases ev)
    (auto simp: step_def on_data_fields on_close_def settle_fields admit_exitcode
      task_done_fields closed_fields split: option.splits)

lemma run_exitcode:
  "exitcode (foldl (step c command n) s evs) =
     exitcode s + sum_list (map to_number (handled c command n s evs))"
proof (induction evs arbitrary: s)
  case Nil
  show ?case by simp
next
  case (Cons ev evs)
  show ?case
    using Cons.IH [of "step c command n s ev"] step_exitcode [of c command n s ev]
    by simp
qed

lemma start_exitcode: "exitcode (start q c command hosts) = 0"
  by (simp add: start_def settle_fields drain_fields admit_exitcode script_fields)

lemma exit_status_is_sum:
  assumes "validate c command = Inr ()"
    and "halted (sshp q c command content evs) = Some (Exited k)"
  shows "k = sum_list (map to_number
           (handled c command (length (read_hosts content))
              (start q c command (read_hosts content)) evs))"
proof -
  have nr: "\<not> rejected q c"
    using assms by (auto simp: sshp_def)
  have "queue_inv c (length (read_hosts content)) (sshp q c command content evs)"
    by (rule sshp_inv(1) [OF assms(1) nr])
  then have "k = exitcode (sshp q c command content evs)"
    using assms(2) by (simp add: queue_inv_def)
  then show ?thesis
    by (simp add: sshp_valid [OF assms(1) nr] run_exitcode start_exitcode)
qed

section \<open>Evaluation of concrete runs\<close>

lemmas run_eval = sshp_def main_def validate_def start_def script_def announced_def settle_def
  rejected_def queue_lenient_def exit_status_def step_def on_close_def
  closed_def to_number_def task_done_def processhost_def drain_def finish_def summary_def
  group_lines_def diff_push_def own_value_def obj_keys_def own_keys_def obj_set_def
  output_append_def on_data_def out_def err_def emit_def vlog_def progress_def init_def
  defaults_def read_hosts_def sshcommand_def is_array_index_def is_digit_def digits_value_def
  proto_names_def admit.simps Let_def chomp_def spawns_def

section \<open>Silent mode\<close>

text \<open>
  C10. With the silent flag set, the two data handlers return at once: they write
  nothing to either channel, in line mode and in group mode, and in group mode the
  \<^verbatim>\<open>[host]\<close> header is not written either, since the test of \<^verbatim>\<open>silent\<close> comes before
  the test of the last host. The state, and so the remembered last host, is unchanged.
\<close>

theorem silent_handlers_write_nothing:
  "silent c \<Longrightarrow>
     out c host d s = s \<and> err c host d s = s \<and> step c command n s (Data j st d) = s"
  by (simp add: out_def err_def on_data_def step_def split: option.splits stream.splits)

theorem silent_handlers_write_nothing_witness:
  "silent (defaults\<lparr>group := True, silent := True\<rparr>)
   \<and> lasthost init \<noteq> Some ''h1''
   \<and> out (defaults\<lparr>group := True, silent := True\<rparr>) ''h1'' ''x'' init = init
   \<and> err (defaults\<lparr>group := True, silent := True\<rparr>) ''h1'' ''x'' init = init"
  using silent_handlers_write_nothing
    [of "defaults\<lparr>group := True, silent := True\<rparr>" "''h1''" "''x''" init]
  by (simp add: defaults_def init_def)

section \<open>Group mode\<close>

text \<open>
  C3, as the claim states it, fails when the silent flag is set together with group
  mode: the chunk of a host that differs from the last host written gets no header.
\<close>

theorem group_header_silent_counterexample:
  "group (defaults\<lparr>group := True, silent := True\<rparr>)
   \<and> lasthost init \<noteq> Some ''a''
   \<and> Header ''a''
       \<notin> set (trace (on_data (defaults\<lparr>group := True, silent := True\<rparr>) Stdout ''a'' ''x'' init))"
  by (simp add: on_data_def out_def defaults_def init_def)

text \<open>
  C3, amended. In group mode without the silent flag, a chunk of either stream is
  written raw to its channel, and a \<^verbatim>\<open>[host]\<close> header is written before it exactly
  when its host differs from the last host written, which then becomes that host. So
  two consecutive chunks of one host give at most one header, followed by both chunks,
  and a chunk of another host gives a new header.
\<close>

theorem group_header_iff_host_changes:
  assumes "group c" and "\<not> silent c"
  shows "on_data c st host d s =
           (if lasthost s = Some host then s\<lparr>trace := trace s @ [Chunk st d]\<rparr>
            else s\<lparr>trace := trace s @ [Header host, Chunk st d], lasthost := Some host\<rparr>)
         \<and> trace (on_data c st' host d' (on_data c st host d s)) =
             trace s @ (if lasthost s = Some host then [] else [Header host])
               @ [Chunk st d, Chunk st' d']
         \<and> (host' \<noteq> host \<longrightarrow>
             trace (on_data c st' host' d' (on_data c st host d s)) =
               trace s @ (if lasthost s = Some host then [] else [Header host])
                 @ [Chunk st d, Header host', Chunk st' d'])"
  using assms by (cases st; cases st') (simp_all add: on_data_def out_def err_def emit_def)

theorem group_header_iff_host_changes_witness:
  "group (defaults\<lparr>group := True\<rparr>) \<and> \<not> silent (defaults\<lparr>group := True\<rparr>)
   \<and> trace (on_data (defaults\<lparr>group := True\<rparr>) Stderr ''a'' ''y''
        (on_data (defaults\<lparr>group := True\<rparr>) Stdout ''a'' ''x'' init))
       = [Header ''a'', Chunk Stdout ''x'', Chunk Stderr ''y'']
   \<and> trace (on_data (defaults\<lparr>group := True\<rparr>) Stderr ''b'' ''y''
        (on_data (defaults\<lparr>group := True\<rparr>) Stdout ''a'' ''x'' init))
       = [Header ''a'', Chunk Stdout ''x'', Header ''b'', Chunk Stderr ''y'']"
proof -
  have g: "group (defaults\<lparr>group := True\<rparr>)" and ns: "\<not> silent (defaults\<lparr>group := True\<rparr>)"
    by (simp_all add: defaults_def)
  have li: "lasthost init \<noteq> Some ''a''" and ti: "trace init = []"
    by (simp_all add: init_def)
  have ne: "''b'' \<noteq> ''a''"
    by simp
  show ?thesis
    using group_header_iff_host_changes
      [OF g ns, where st = Stdout and host = "''a''" and d = "''x''" and s = init
        and st' = Stderr and d' = "''y''" and host' = "''b''", THEN conjunct2]
      g ns li ti ne
    by simp
qed

section \<open>Validation of the options\<close>

text \<open>
  C4. An empty command, group mode together with join mode, and join mode together
  with the silent flag are each rejected before the host list is read: the only effect
  of the run is one message on standard error, the process exits with status 1, and no
  job is ever queued, started or completed, whatever events follow.
\<close>

theorem invalid_options_rejected_before_dispatch:
  assumes "command = [] \<or> (group c \<and> join c) \<or> (join c \<and> silent c)"
  shows "halted (sshp q c command content evs) = Some (Exited 1)
         \<and> (\<exists>msg. trace (sshp q c command content evs) = [Console_error msg])
         \<and> spawns (sshp q c command content evs) = []
         \<and> tasks (sshp q c command content evs) = []
         \<and> running (sshp q c command content evs) = []
         \<and> completed (sshp q c command content evs) = 0
         \<and> drains (sshp q c command content evs) = 0"
  using assms by (auto simp: sshp_def validate_def init_def spawns_def)

theorem invalid_options_rejected_before_dispatch_witness:
  "group (defaults\<lparr>group := True, join := True\<rparr>) \<and> join (defaults\<lparr>group := True, join := True\<rparr>)
   \<and> halted (sshp queue_lenient (defaults\<lparr>group := True, join := True\<rparr>) [''uname''] ''h1'' [Close 0 (Some 0)])
       = Some (Exited 1)
   \<and> spawns (sshp queue_lenient (defaults\<lparr>group := True, join := True\<rparr>) [''uname''] ''h1'' [Close 0 (Some 0)])
       = []"
  using invalid_options_rejected_before_dispatch
    [where command = "[''uname'']" and c = "defaults\<lparr>group := True, join := True\<rparr>"
      and q = queue_lenient and content = "''h1''" and evs = "[Close 0 (Some 0)]"]
  by (simp add: defaults_def)

section \<open>The concurrency cap\<close>




section \<open>An empty host list\<close>




section \<open>Dry run\<close>




section \<open>The completed count and the drain\<close>

text \<open>
  C8, as the claim states it, fails in two kinds of run. In a dry run the callback is
  called without the count being touched: with one host the drain handler runs while
  the count is still 0. With no host the count equals the total from the start, and
  with a library that calls the drain handler at a job's terminal event only it never
  runs.
\<close>

theorem completed_count_counterexample:
  "length (read_hosts ''h1'') = 1
   \<and> completed (main queue_lenient [Opt_n] [''uname''] ''h1'' []) = 0
   \<and> drains (main queue_lenient [Opt_n] [''uname''] ''h1'' []) = 1
   \<and> completed (main queue_lenient [] [''uname''] [] []) = length (read_hosts [])
   \<and> drains (main queue_lenient [] [''uname''] [] []) = 0"
  by (simp add: run_eval)

text \<open>
  C8, amended. Throughout every run the completed count never decreases as further
  events arrive and never exceeds the number of hosts; and in every run that is not a
  dry run and has at least one host, at every moment the drain handler has run exactly
  once if the count equals the number of hosts and not at all otherwise. So there the
  drain fires once, within the \<^verbatim>\<open>close\<close> event that takes the count to the total, and
  never before. The count can reach the total: with valid options and a cap of at
  least one, as long as the process has not ended some job is running, and the
  \<^verbatim>\<open>close\<close> events of the running jobs, one after the other, take it there.
\<close>

theorem completed_count_and_drain:
  "completed (sshp q c command content evs) \<le> completed (sshp q c command content (evs @ evs'))
   \<and> completed (sshp q c command content evs) \<le> length (read_hosts content)
   \<and> (\<not> dryrun c \<and> read_hosts content \<noteq> [] \<longrightarrow>
        drains (sshp q c command content evs)
          = (if completed (sshp q c command content evs) = length (read_hosts content) then 1 else 0))
   \<and> (validate c command = Inr () \<and> \<not> dryrun c \<and> 0 < maxjobs c
        \<and> halted (sshp q c command content evs) = None \<longrightarrow>
        (\<exists>more. completed (sshp q c command content (evs @ more)) = length (read_hosts content)))"
proof -
  have mono: "completed (sshp q c command content evs) \<le> completed (sshp q c command content (evs @ evs'))"
    unfolding sshp_append by (rule run_completed_mono)
  have live: "validate c command = Inr () \<and> \<not> dryrun c \<and> 0 < maxjobs c
        \<and> halted (sshp q c command content evs) = None \<longrightarrow>
        (\<exists>more. completed (sshp q c command content (evs @ more)) = length (read_hosts content))"
    using can_complete [of c command q content evs] by blast
  have safe: "completed (sshp q c command content evs) \<le> length (read_hosts content)
   \<and> (\<not> dryrun c \<and> read_hosts content \<noteq> [] \<longrightarrow>
        drains (sshp q c command content evs)
          = (if completed (sshp q c command content evs) = length (read_hosts content) then 1 else 0))"
  proof (cases "validate c command = Inr () \<and> \<not> rejected q c")
    case True
    then have "queue_inv c (length (read_hosts content)) (sshp q c command content evs)"
      by (simp add: sshp_inv(1))
    then show ?thesis
      by (cases "dryrun c") (auto simp: queue_inv_def)
  next
    case False
    then have "completed (sshp q c command content evs) = 0
        \<and> drains (sshp q c command content evs) = 0"
      using sshp_stuck [of c command q content evs] by blast
    then show ?thesis
      by auto
  qed
  show ?thesis
    using mono safe live by blast
qed

theorem completed_count_and_drain_witness:
  "\<not> dryrun defaults \<and> read_hosts ''h1'' \<noteq> []
   \<and> completed (sshp queue_lenient defaults [''uname''] ''h1'' []) = 0
   \<and> drains (sshp queue_lenient defaults [''uname''] ''h1'' []) = 0
   \<and> completed (sshp queue_lenient defaults [''uname''] ''h1'' [Close 0 (Some 2)]) = 1
   \<and> drains (sshp queue_lenient defaults [''uname''] ''h1'' [Close 0 (Some 2)]) = 1"
proof -
  have a: "\<not> dryrun defaults" by (simp add: defaults_def)
  have b: "read_hosts ''h1'' \<noteq> []" by (simp add: read_hosts_def)
  have l: "length (read_hosts ''h1'') = 1" by (simp add: read_hosts_def)
  have c0: "completed (sshp queue_lenient defaults [''uname''] ''h1'' []) = 0"
    by (simp add: run_eval)
  have c1: "completed (sshp queue_lenient defaults [''uname''] ''h1'' [Close 0 (Some 2)]) = 1"
    by (simp add: run_eval)
  show ?thesis
    using completed_count_and_drain [where c = defaults and command = "[''uname'']"
        and content = "''h1''" and evs = "[]" and evs' = "[]"]
      completed_count_and_drain [where c = defaults and command = "[''uname'']"
        and content = "''h1''" and evs = "[Close 0 (Some 2)]" and evs' = "[]"]
      a b l c0 c1
    by simp
qed

section \<open>Failing jobs\<close>

text \<open>
  C5, as the claim states it, fails for a failure to spawn: the child then emits
  \<^verbatim>\<open>error\<close>, for which \<^verbatim>\<open>processhost\<close> registers no listener, so the error is thrown
  and ends the whole run. With two hosts and a cap of one, the second host is never
  started, also when the first child's \<^verbatim>\<open>close\<close> event follows.
\<close>

theorem spawn_error_fatal_counterexample:
  "halted (sshp queue_lenient (defaults\<lparr>maxjobs := 1\<rparr>) [''uname''] ''a
b'' [Error 0]) = Some Uncaught
   \<and> tasks (sshp queue_lenient (defaults\<lparr>maxjobs := 1\<rparr>) [''uname''] ''a
b'' [Error 0]) = [(1, ''b'')]
   \<and> spawns (sshp queue_lenient (defaults\<lparr>maxjobs := 1\<rparr>) [''uname''] ''a
b'' [Error 0, Close 0 (Some 1)]) = [Spawn (Str ''ssh'') [Str ''a'', Str ''uname'']]"
  by (simp add: run_eval)

text \<open>
  C5, amended. While the run is going on, the \<^verbatim>\<open>close\<close> event of a running job,
  whatever its status, is never fatal: the status is added to the aggregate
  (\<^verbatim>\<open>null\<close> as 0), the completed count goes up by one, and if a host is pending the
  run goes on, the first pending host takes the slot and its process is spawned; if
  none is pending the job just leaves the running set, and the drain handler runs if it
  was the last.
\<close>

theorem job_failure_not_fatal:
  assumes "validate c command = Inr ()"
    and "halted (sshp q c command content evs) = None"
    and "map_of (running (sshp q c command content evs)) j = Some host"
  shows "exitcode (sshp q c command content (evs @ [Close j code]))
           = exitcode (sshp q c command content evs) + to_number code
         \<and> completed (sshp q c command content (evs @ [Close j code]))
           = completed (sshp q c command content evs) + 1
         \<and> (case tasks (sshp q c command content evs) of
               t # rest \<Rightarrow>
                 halted (sshp q c command content (evs @ [Close j code])) = None
                 \<and> tasks (sshp q c command content (evs @ [Close j code])) = rest
                 \<and> running (sshp q c command content (evs @ [Close j code]))
                     = filter (\<lambda>t. fst t \<noteq> j) (running (sshp q c command content evs)) @ [t]
                 \<and> spawns (sshp q c command content (evs @ [Close j code]))
                     = spawns (sshp q c command content evs)
                       @ [Spawn (Str ''ssh'') (tl (sshcommand c) @ [Str (snd t)] @ map Str command)]
             | [] \<Rightarrow>
                 tasks (sshp q c command content (evs @ [Close j code])) = []
                 \<and> running (sshp q c command content (evs @ [Close j code]))
                     = filter (\<lambda>t. fst t \<noteq> j) (running (sshp q c command content evs))
                 \<and> (if filter (\<lambda>t. fst t \<noteq> j) (running (sshp q c command content evs)) = []
                     then drains (sshp q c command content (evs @ [Close j code])) = 1
                     else halted (sshp q c command content (evs @ [Close j code])) = None))"
  using assms by (rule close_running_job)

theorem job_failure_not_fatal_witness:
  "validate (defaults\<lparr>maxjobs := 1\<rparr>) [''uname''] = Inr ()
   \<and> halted (sshp queue_lenient (defaults\<lparr>maxjobs := 1\<rparr>) [''uname''] ''a
b'' []) = None
   \<and> map_of (running (sshp queue_lenient (defaults\<lparr>maxjobs := 1\<rparr>) [''uname''] ''a
b'' [])) 0 = Some ''a''
   \<and> exitcode (sshp queue_lenient (defaults\<lparr>maxjobs := 1\<rparr>) [''uname''] ''a
b'' [Close 0 (Some 255)]) = 255
   \<and> halted (sshp queue_lenient (defaults\<lparr>maxjobs := 1\<rparr>) [''uname''] ''a
b'' [Close 0 (Some 255)]) = None
   \<and> running (sshp queue_lenient (defaults\<lparr>maxjobs := 1\<rparr>) [''uname''] ''a
b'' [Close 0 (Some 255)]) = [(1, ''b'')]"
proof -
  let ?c = "defaults\<lparr>maxjobs := 1\<rparr>"
  let ?s = "sshp queue_lenient ?c [''uname''] ''a
b'' []"
  have v: "validate ?c [''uname''] = Inr ()"
    by (simp add: validate_def defaults_def)
  have h: "halted ?s = None"
    by (simp add: run_eval)
  have r: "running ?s = [(0, ''a'')]"
    by (simp add: run_eval)
  then have m: "map_of (running ?s) 0 = Some ''a''"
    by simp
  have t: "tasks ?s = [(1, ''b'')]"
    by (simp add: run_eval)
  have e: "exitcode ?s = 0"
    by (simp add: run_eval)
  show ?thesis
    using job_failure_not_fatal [OF v h m, where code = "Some 255"] v h m r t e
    by (simp add: to_number_def)
qed

section \<open>The exit code of the process\<close>

text \<open>
  C1. The status that the drain handler gives to \<^verbatim>\<open>process.exit\<close> is the sum of what
  the handled \<^verbatim>\<open>close\<close> events added (\<open>exit_status_is_sum\<close>), and a status that is a
  number is added as it is. But the status of a child ended by a signal is \<^verbatim>\<open>null\<close>,
  and \<^verbatim>\<open>exitcode += null\<close> adds 0: with one host whose child is killed, the process
  exits with status 0, although that job did not exit with status 0. Line 304 does
  take \<^verbatim>\<open>null\<close> for a failure: with \<^verbatim>\<open>-e\<close> it reports the status as \<^verbatim>\<open>null\<close>, in red.
\<close>

theorem exit_zero_after_signal:
  "halted (sshp q defaults [''uname''] ''h1'' [Close 0 None]) = Some (Exited 0)
   \<and> trace (sshp q (defaults\<lparr>errorcodes := True\<rparr>) [''uname''] ''h1'' [Close 0 None])
       = [Spawn (Str ''ssh'') [Str ''h1'', Str ''uname''], Exited_line ''h1'' None]
   \<and> halted (sshp q (defaults\<lparr>errorcodes := True\<rparr>) [''uname''] ''h1'' [Close 0 None])
       = Some (Exited 0)"
  by (simp add: run_eval)

section \<open>The summary of join mode, claim\<close>




end
